theory Spec2Isabelle
  imports Main "HOL-Library.Sublist"
begin

section \<open>JavaScript strings\<close>

text \<open>
  A JavaScript string is a sequence of UTF-16 code units; a code unit is modelled by its
  number. \<open>js\<close> writes an ASCII literal as such a sequence.

  \<open>isWhiteSpace\<close> is the set that \<^verbatim>\<open>String.prototype.trim\<close> removes and that
  \<^verbatim>\<open>\s\<close> matches in a regular expression (WhiteSpace and LineTerminator of ECMAScript).

  \<^verbatim>\<open>String.prototype.toLowerCase\<close> follows the Unicode tables of the engine: it maps
  letters of every script, can change the length of a string and looks at the context of
  a capital sigma. It is not defined here. Every function of the program that calls it
  takes it as its first argument \<open>toLowerCase\<close>, and the theorems hold for every function in
  its place, or for every function with the properties they name:
  \<^item> \<open>lowersAscii\<close>: on a string of ASCII code units it moves \<open>A\<close>..\<open>Z\<close> up by 32 and leaves
    the rest;
  \<^item> \<open>lowercasing\<close>: moreover it is idempotent, it gives a string without white space at
    its ends when given one, it works on the two sides of an \<open>@\<close> (64) or a \<open>+\<close> (43)
    separately and leaves that code unit in place, and it makes no \<open>@\<close> and no \<open>+\<close> of its
    own.

  The built-in has these properties: it maps each letter by the Unicode lowercase
  mapping, whose results it leaves as they are; no letter is mapped to white space, to
  \<open>@\<close> or to \<open>+\<close>; and the one rule that looks at the context, the final sigma, looks only
  at cased letters and case-ignorable characters, and \<open>@\<close> and \<open>+\<close> are neither.
  \<open>latin1LowerCase\<close> is the
  built-in on strings of code units below 256 (\<open>A\<close>..\<open>Z\<close> and U+00C0..U+00DE except U+00D7
  move up by 32); it stands for \<open>toLowerCase\<close> where a concrete call is evaluated, on
  ASCII strings.
\<close>

type_synonym jsstring = "nat list"

definition js :: "string \<Rightarrow> jsstring" where
  "js s = map of_char s"

definition isWhiteSpace :: "nat \<Rightarrow> bool" where
  "isWhiteSpace c =
     (c \<in> set [9, 10, 11, 12, 13, 32, 160, 5760, 8232, 8233, 8239, 8287, 12288, 65279]
      \<or> (8192 \<le> c \<and> c \<le> 8202))"

definition trim :: "jsstring \<Rightarrow> jsstring" where
  "trim s = rev (dropWhile isWhiteSpace (rev (dropWhile isWhiteSpace s)))"

definition lowerUnit :: "nat \<Rightarrow> nat" where
  "lowerUnit c =
     (if (65 \<le> c \<and> c \<le> 90) \<or> (192 \<le> c \<and> c \<le> 222 \<and> c \<noteq> 215) then c + 32 else c)"

definition latin1LowerCase :: "jsstring \<Rightarrow> jsstring" where
  "latin1LowerCase s = map lowerUnit s"

definition lowersAscii :: "(jsstring \<Rightarrow> jsstring) \<Rightarrow> bool" where
  "lowersAscii toLowerCase =
     (\<forall>s. (\<forall>c\<in>set s. c < 128) \<longrightarrow> toLowerCase s = map lowerUnit s)"

definition lowercasing :: "(jsstring \<Rightarrow> jsstring) \<Rightarrow> bool" where
  "lowercasing toLowerCase =
     (lowersAscii toLowerCase
      \<and> (\<forall>s. toLowerCase (toLowerCase s) = toLowerCase s)
      \<and> (\<forall>s. trim (toLowerCase (trim s)) = toLowerCase (trim s))
      \<and> (\<forall>x y. toLowerCase (x @ [64] @ y) = toLowerCase x @ [64] @ toLowerCase y)
      \<and> (\<forall>x y. toLowerCase (x @ [43] @ y) = toLowerCase x @ [43] @ toLowerCase y)
      \<and> (\<forall>x. 64 \<in> set (toLowerCase x) \<longrightarrow> 64 \<in> set x)
      \<and> (\<forall>x. 43 \<in> set (toLowerCase x) \<longrightarrow> 43 \<in> set x))"

text \<open>\<^verbatim>\<open>s.includes(n)\<close>: \<open>n\<close> occurs in \<open>s\<close> as a contiguous substring.\<close>

fun includesStr :: "jsstring \<Rightarrow> jsstring \<Rightarrow> bool" where
  "includesStr [] n = (n = [])"
| "includesStr (c # cs) n = (prefix n (c # cs) \<or> includesStr cs n)"

text \<open>\<^verbatim>\<open>s.split(sep)\<close> for a separator of one code unit: \<^verbatim>\<open>"a@@b".split("@")\<close> is
  \<^verbatim>\<open>["a", "", "b"]\<close> and \<^verbatim>\<open>"".split("@")\<close> is \<^verbatim>\<open>[""]\<close>.\<close>

fun splitChar :: "nat \<Rightarrow> jsstring \<Rightarrow> jsstring list" where
  "splitChar sep [] = [[]]"
| "splitChar sep (c # cs) =
     (if c = sep then [] # splitChar sep cs
      else (case splitChar sep cs of
              [] \<Rightarrow> [[c]]
            | t # ts \<Rightarrow> (c # t) # ts))"

section \<open>The address normalizer (\<^verbatim>\<open>normalizeGmail\<close>, utils/gmailHelpers.ts)\<close>

text \<open>
  \<^verbatim>\<open>
  const normalizeGmail = (addr: string) => {
    const lower = (addr || "").trim().toLowerCase();
    if (!lower.includes("@")) return lower;
    const [local, domain] = lower.split("@");
    if (domain === "gmail.com" || domain === "googlemail.com") {
      return `${local.split("+")[0]}@${domain}`;
    }
    return lower;
  };
  \<close>
  The destructuring takes the first two pieces of the split: \<open>local\<close> is the text before
  the first \<open>@\<close> (code unit 64) and \<open>domain\<close> the text between the first \<open>@\<close> and the
  next one, or the end. \<open>+\<close> is code unit 43.
\<close>

definition normalizeGmail :: "(jsstring \<Rightarrow> jsstring) \<Rightarrow> jsstring \<Rightarrow> jsstring" where
  "normalizeGmail toLowerCase addr =
     (let lower = toLowerCase (trim addr) in
      if \<not> includesStr lower (js ''@'') then lower
      else (case splitChar 64 lower of
              local # domain # rest \<Rightarrow>
                if domain = js ''gmail.com'' \<or> domain = js ''googlemail.com''
                then (case splitChar 43 local of
                        p # ps \<Rightarrow> p @ js ''@'' @ domain
                      | [] \<Rightarrow> lower)
                else lower
            | _ \<Rightarrow> lower))"


section \<open>The URL extractor (\<^verbatim>\<open>extractLinks\<close>, utils/gmailHelpers.ts)\<close>

text \<open>
  \<^verbatim>\<open>
  function extractLinks(src: string): string[] {
    const urls = new Set<string>();
    const re = /\bhttps?:\/\/[^\s<>"')]+/gi;
    let m: RegExpExecArray | null;
    while ((m = re.exec(src)) !== null) {
      urls.add(m[0].replace(/[),.;\]\>"']+$/g, ""));
    }
    return [...urls];
  }
  \<close>
  The regular expression is modelled by what it accepts.
  \<^item> \<open>isWordChar\<close> is \<^verbatim>\<open>\w\<close>, which decides the word boundary \<^verbatim>\<open>\b\<close>: a match can start at a
    position only if exactly one of the code unit before it (none at the start of the text)
    and the code unit at it is a word character.
  \<^item> \<open>matchesIgnoreCase\<close> compares with the flag \<^verbatim>\<open>i\<close>: \<open>canonUnit\<close> maps \<open>a\<close>..\<open>z\<close> to
    \<open>A\<close>..\<open>Z\<close>, and no code unit from 128 on is taken for an ASCII letter.
  \<^item> \<open>isUrlChar\<close> is the class \<^verbatim>\<open>[^\s<>"')]\<close> (60, 62, 34, 39, 41 are \<open>< > " ' )\<close>).
  \<^item> \<open>matchAt s\<close> is the match that starts at the head of \<open>s\<close>, if there is one: the scheme
    with or without \<open>s\<close>, then the longest run of URL characters, which must not be empty.
  \<^item> \<open>execAll\<close> is the loop of \<^verbatim>\<open>re.exec\<close> with the flag \<^verbatim>\<open>g\<close>: the leftmost match from the
    current position, then on from the end of that match. Its first argument tells whether
    the code unit before the current position is a word character.
  \<^item> \<open>isTrailChar\<close> is the class \<^verbatim>\<open>[),.;\]\>"']\<close> (41, 44, 46, 59, 93, 62, 34, 39), and
    \<open>stripTrailing\<close> removes the run of such code units that ends the match, which is what
    the replace with \<^verbatim>\<open>+$\<close> does.
  \<^item> \<open>urlsAdd\<close> is \<^verbatim>\<open>Set.add\<close> on a set that keeps insertion order.
\<close>

definition isWordChar :: "nat \<Rightarrow> bool" where
  "isWordChar c = ((48 \<le> c \<and> c \<le> 57) \<or> (65 \<le> c \<and> c \<le> 90) \<or> c = 95 \<or> (97 \<le> c \<and> c \<le> 122))"

definition isUrlChar :: "nat \<Rightarrow> bool" where
  "isUrlChar c = (\<not> isWhiteSpace c \<and> c \<notin> set [60, 62, 34, 39, 41])"

definition canonUnit :: "nat \<Rightarrow> nat" where
  "canonUnit c = (if 97 \<le> c \<and> c \<le> 122 then c - 32 else c)"

definition matchesIgnoreCase :: "jsstring \<Rightarrow> jsstring \<Rightarrow> bool" where
  "matchesIgnoreCase pat s =
     (length pat \<le> length s \<and> map canonUnit (take (length pat) s) = map canonUnit pat)"

definition matchAt :: "jsstring \<Rightarrow> jsstring option" where
  "matchAt s =
     (case (if matchesIgnoreCase (js ''https://'') s then Some 8
            else if matchesIgnoreCase (js ''http://'') s then Some 7
            else None) of
        None \<Rightarrow> None
      | Some n \<Rightarrow>
          (let run = takeWhile isUrlChar (drop n s)
           in if run = [] then None else Some (take n s @ run)))"

lemma matchAt_nonempty: "matchAt s = Some m \<Longrightarrow> m \<noteq> []"
  by (auto simp: matchAt_def Let_def split: option.splits if_splits)

function execAll :: "bool \<Rightarrow> jsstring \<Rightarrow> jsstring list" where
  "execAll prevWord [] = []"
| "execAll prevWord (c # cs) =
     (case (if prevWord \<noteq> isWordChar c then matchAt (c # cs) else None) of
        Some m \<Rightarrow> m # execAll (isWordChar (last m)) (drop (length m) (c # cs))
      | None \<Rightarrow> execAll (isWordChar c) cs)"
  by pat_completeness auto
termination
  by (relation "measure (\<lambda>(p, s). length s)") (auto dest!: matchAt_nonempty split: if_splits)

definition isTrailChar :: "nat \<Rightarrow> bool" where
  "isTrailChar c = (c \<in> set [41, 44, 46, 59, 93, 62, 34, 39])"

definition stripTrailing :: "jsstring \<Rightarrow> jsstring" where
  "stripTrailing m = rev (dropWhile isTrailChar (rev m))"

definition urlsAdd :: "jsstring list \<Rightarrow> jsstring \<Rightarrow> jsstring list" where
  "urlsAdd urls u = (if u \<in> set urls then urls else urls @ [u])"

definition extractLinks :: "jsstring \<Rightarrow> jsstring list" where
  "extractLinks src = foldl urlsAdd [] (map stripTrailing (execAll False src))"


section \<open>Message summaries\<close>

text \<open>
  The summaries the Gateway returns (\<^verbatim>\<open>EmailLite\<close>) and the Engine reads. The fields
  \<^verbatim>\<open>from\<close>, \<^verbatim>\<open>to\<close> and \<^verbatim>\<open>text\<close> are \<open>fromHeader\<close>, \<open>toHeader\<close> and \<open>textBody\<close> here. An optional
  field is an \<open>option\<close>. \<open>date\<close> is the time value of the \<^verbatim>\<open>Date\<close> in milliseconds. The
  Engine also reads \<open>internalDateMs\<close>, which the Gateway never sets.
\<close>

record attachment =
  filename :: "jsstring option"
  contentType :: "jsstring option"
  size :: "nat option"
  content :: "nat list option"

record email =
  uid :: nat
  internalDateMs :: "int option"
  date :: "int option"
  fromHeader :: "jsstring option"
  toHeader :: "jsstring option"
  toAddresses :: "jsstring list option"
  subject :: "jsstring option"
  textBody :: "jsstring option"
  htmlAsText :: "jsstring option"
  snippet :: "jsstring option"
  attachments :: "attachment list"

section \<open>The candidate filter\<close>

text \<open>
  \<^verbatim>\<open>
  const candidates = emails.filter((e) => {
    const subjectOk = (e.subject ?? "").toLowerCase().includes(subjectNeedle);
    const toAddrs: string[] =
      e.toAddresses?.length
        ? e.toAddresses
        : (e.to as string | undefined)?.split(/[,\s]+/) || [];
    const allAddrs = toAddrs.map((a: string) => normalizeGmail(a));
    const toOk =
      allAddrs.includes(targetRecipient) ||
      (e.to ?? "").toLowerCase().includes(targetRecipient);
    return subjectOk && toOk;
  });
  \<close>
  \<open>splitSeparators\<close> is \<^verbatim>\<open>split(/[,\s]+/)\<close>: the pieces between the runs of commas and white
  space, with an empty first piece when the text starts with such a run and an empty last
  piece when it ends with one.
\<close>

definition orEmpty :: "jsstring option \<Rightarrow> jsstring" where
  "orEmpty v = (case v of None \<Rightarrow> [] | Some s \<Rightarrow> s)"

definition isSeparator :: "nat \<Rightarrow> bool" where
  "isSeparator c = (c = 44 \<or> isWhiteSpace c)"

function splitSeparators :: "jsstring \<Rightarrow> jsstring list" where
  "splitSeparators s =
     (let piece = takeWhile (\<lambda>c. \<not> isSeparator c) s;
          r = dropWhile (\<lambda>c. \<not> isSeparator c) s
      in if r = [] then [piece] else piece # splitSeparators (dropWhile isSeparator r))"
  by pat_completeness auto
termination
proof (relation "measure length")
  fix s piece r
  assume r: "r = dropWhile (\<lambda>c. \<not> isSeparator c) s" and ne: "r \<noteq> []"
  from ne have "isSeparator (hd r)" unfolding r using hd_dropWhile[of "\<lambda>c. \<not> isSeparator c" s] by simp
  with ne have "length (dropWhile isSeparator r) < length r"
    by (cases r) (auto simp: le_imp_less_Suc length_dropWhile_le)
  moreover have "length r \<le> length s" unfolding r by (rule length_dropWhile_le)
  ultimately show "(dropWhile isSeparator r, s) \<in> measure length" by simp
qed simp

declare splitSeparators.simps [simp del]

definition toAddrs :: "email \<Rightarrow> jsstring list" where
  "toAddrs e =
     (case toAddresses e of
        Some (a # as) \<Rightarrow> a # as
      | _ \<Rightarrow> (case toHeader e of Some t \<Rightarrow> splitSeparators t | None \<Rightarrow> []))"

definition qualifies :: "(jsstring \<Rightarrow> jsstring) \<Rightarrow> jsstring \<Rightarrow> jsstring \<Rightarrow> email \<Rightarrow> bool" where
  "qualifies toLowerCase targetRecipient subjectNeedle e =
     (let subjectOk = includesStr (toLowerCase (orEmpty (subject e))) subjectNeedle;
          allAddrs = map (normalizeGmail toLowerCase) (toAddrs e);
          toOk = (targetRecipient \<in> set allAddrs
                  \<or> includesStr (toLowerCase (orEmpty (toHeader e))) targetRecipient)
      in subjectOk \<and> toOk)"

section \<open>Selecting the latest candidate and its URL\<close>

text \<open>
  \<^verbatim>\<open>
  if (candidates.length) {
    const latest = [...candidates].sort((a, b) => {
      const ai = Number(a.internalDateMs ?? 0);
      const bi = Number(b.internalDateMs ?? 0);
      if (bi !== ai) return bi - ai;
      const ad = a.date ? new Date(a.date).getTime() : 0;
      const bd = b.date ? new Date(b.date).getTime() : 0;
      return bd - ad;
    })[0];
    const body =
      (latest.htmlAsText && String(latest.htmlAsText)) ||
      (latest.text && String(latest.text)) ||
      "";
    const links = extractLinks(body);
    const match = links.find((u) => u.toLowerCase().includes(urlNeedle));
    if (match) return match;
  }
  \<close>
  \<^verbatim>\<open>Array.prototype.sort\<close> is stable, and this comparator is a consistent one, so the
  sorted array is the one a stable insertion sort gives: \<open>arraySort\<close> puts an element
  before the first element it does not have to follow. \<open>pollCycle\<close> is the body of the
  loop from the filter to the test of \<open>match\<close>; an empty string is falsy in both tests of
  the body and in the last test.
\<close>

definition byReceived :: "email \<Rightarrow> email \<Rightarrow> int" where
  "byReceived a b =
     (let ai = (case internalDateMs a of None \<Rightarrow> 0 | Some v \<Rightarrow> v);
          bi = (case internalDateMs b of None \<Rightarrow> 0 | Some v \<Rightarrow> v)
      in if bi \<noteq> ai then bi - ai
         else (let ad = (case date a of None \<Rightarrow> 0 | Some t \<Rightarrow> t);
                   bd = (case date b of None \<Rightarrow> 0 | Some t \<Rightarrow> t)
               in bd - ad))"

fun sortInsert :: "('a \<Rightarrow> 'a \<Rightarrow> int) \<Rightarrow> 'a \<Rightarrow> 'a list \<Rightarrow> 'a list" where
  "sortInsert cmp x [] = [x]"
| "sortInsert cmp x (y # ys) = (if cmp x y \<le> 0 then x # y # ys else y # sortInsert cmp x ys)"

fun arraySort :: "('a \<Rightarrow> 'a \<Rightarrow> int) \<Rightarrow> 'a list \<Rightarrow> 'a list" where
  "arraySort cmp [] = []"
| "arraySort cmp (x # xs) = sortInsert cmp x (arraySort cmp xs)"

definition pickBody :: "email \<Rightarrow> jsstring" where
  "pickBody latest =
     (if orEmpty (htmlAsText latest) \<noteq> [] then orEmpty (htmlAsText latest)
      else if orEmpty (textBody latest) \<noteq> [] then orEmpty (textBody latest)
      else [])"

lemma arraySort_Nil_iff: "arraySort cmp xs = [] \<longleftrightarrow> xs = []"
proof -
  have ins: "\<And>x ys. sortInsert cmp x ys \<noteq> []"
  proof -
    fix x ys show "sortInsert cmp x ys \<noteq> []" by (cases ys) auto
  qed
  show ?thesis by (cases xs) (auto simp: ins)
qed

definition pollCycle ::
  "(jsstring \<Rightarrow> jsstring) \<Rightarrow> jsstring \<Rightarrow> jsstring \<Rightarrow> jsstring \<Rightarrow> email list \<Rightarrow> jsstring option" where
  "pollCycle toLowerCase targetRecipient subjectNeedle urlNeedle emails =
     (let candidates = filter (qualifies toLowerCase targetRecipient subjectNeedle) emails
      in if candidates \<noteq> []
         then (let latest = hd (arraySort byReceived candidates);
                   body = pickBody latest;
                   links = extractLinks body
               in case find (\<lambda>u. includesStr (toLowerCase u) urlNeedle) links of
                    None \<Rightarrow> None
                  | Some match \<Rightarrow> if match \<noteq> [] then Some match else None)
         else None)"

section \<open>The Mail Query Gateway (\<^verbatim>\<open>fetchEmails\<close>, utils/gmailClient.ts)\<close>

text \<open>
  The IMAP server and the mail parser are the environment of \<^verbatim>\<open>fetchEmails\<close>. A record
  \<open>imap\<close> says what they answer during one call: whether \<^verbatim>\<open>connect\<close> rejects (and with which
  message), the mailbox paths, the result of each search (\<open>None\<close> when it is not an array),
  what the download of a message gives (an error, no content, or the raw message), and
  what the parser makes of a raw message (an error, or the parsed mail). The commands sent
  to the server are collected in a trace of \<open>imapCall\<close>s. Console output is left out; the
  other commands (\<^verbatim>\<open>list\<close>, \<^verbatim>\<open>mailboxOpen\<close>, \<^verbatim>\<open>search\<close>, \<^verbatim>\<open>logout\<close>) are taken to succeed, and a
  failing \<^verbatim>\<open>messageFlagsAdd\<close> is caught where it is called and changes nothing.

  The search with its retries:
  \<^verbatim>\<open>
  const searchQuery: Record<string, any> = {};
  if (unreadOnly) searchQuery.seen = false;
  let sinceDate: Date | undefined;
  if (sinceMs) {
    sinceDate = new Date(Date.now() - sinceMs);
    searchQuery.since = sinceDate;
  }
  let uids = await client.search(searchQuery, { uid: true });
  let uidsArr: number[] = Array.isArray(uids) ? uids : [];
  if (uidsArr.length === 0 && sinceDate) {
    const retryNoSince: Record<string, any> = {};
    if (unreadOnly) retryNoSince.seen = false;
    const retryUids = await client.search(retryNoSince, { uid: true });
    const retryArr: number[] = Array.isArray(retryUids) ? retryUids : [];
    if (retryArr.length > 0) uidsArr = retryArr;
  }
  if (uidsArr.length === 0 && unreadOnly) {
    const retryAll: Record<string, any> = {};
    const retryAllUids = await client.search(retryAll, { uid: true });
    const retryAllArr: number[] = Array.isArray(retryAllUids) ? retryAllUids : [];
    if (retryAllArr.length > 0) uidsArr = retryAllArr;
  }
  \<close>
  The loop over the messages (\<open>processAll\<close>, with \<open>processMessage\<close> for the body of the
  \<^verbatim>\<open>try\<close>): a message whose download or parsing throws lands in the \<^verbatim>\<open>catch\<close>, which logs
  and goes on (\<open>Thrown\<close>); a message without content or rejected by the client-side
  filters is passed over (\<open>Skipped\<close>); any other is pushed (\<open>Pushed\<close>), and the loop stops
  when the results reach the limit.
  \<^verbatim>\<open>
  for (const uid of ordered) {
    try {
      const { content } = await client.download(uid, "", { uid: true });
      if (!content) { continue; }
      const raw = await toBuffer(content);
      const parsed: any = await simpleParser(raw);
      ...
      if (!(okFrom && okSubject && okBody)) continue;
      ...
      results.push({ uid, date: parsed.date ?? undefined, from: fromText, to: toText,
        toAddresses, subject, text: parsed.text ?? undefined,
        htmlAsText: parsed.htmlAsText ?? undefined,
        snippet: bodyText.replace(/\s+/g, " ").trim().slice(0, 200), attachments });
      if (results.length >= limit) break;
    } catch (err) {
      console.error(`Failed to process email with UID ${uid}: ${err}`);
    }
  }
  \<close>
\<close>

record emailFilter =
  mailbox :: "jsstring option"
  unreadOnly :: "bool option"
  fromContains :: "jsstring option"
  subjectContains :: "jsstring option"
  bodyIncludes :: "jsstring option"
  sinceMs :: "int option"
  limit :: "int option"
  includeAttachments :: "bool option"
  markSeen :: "bool option"
  sortNewestFirst :: "bool option"

record searchQuery =
  seen :: "bool option"
  since :: "int option"

datatype imapCall =
    Connect
  | ListBoxes
  | MailboxOpen jsstring bool
  | Search searchQuery
  | Download nat
  | MessageFlagsAdd nat
  | Logout

record parsedMail =
  parsedFrom :: "jsstring option"
  parsedSubject :: "jsstring option"
  parsedText :: "jsstring option"
  parsedHtmlAsText :: "jsstring option"
  parsedTo :: "jsstring option"
  parsedToValue :: "jsstring option list option"
  parsedDate :: "int option"
  parsedAttachments :: "attachment list option"

record imap =
  connectError :: "jsstring option"
  boxes :: "jsstring list"
  searchResult :: "searchQuery \<Rightarrow> nat list option"
  downloadResult :: "nat \<Rightarrow> jsstring + nat list option"
  parseResult :: "nat list \<Rightarrow> jsstring + parsedMail"

datatype failure =
    ConnectFailed jsstring
  | MailboxNotFound jsstring
  | Timeout jsstring

definition orElse :: "'a option \<Rightarrow> 'a \<Rightarrow> 'a" where
  "orElse v d = (case v of None \<Rightarrow> d | Some x \<Rightarrow> x)"

fun joinWith :: "jsstring \<Rightarrow> jsstring list \<Rightarrow> jsstring" where
  "joinWith sep [] = []"
| "joinWith sep [x] = x"
| "joinWith sep (x # y # ys) = x @ sep @ joinWith sep (y # ys)"

definition connectTips :: jsstring where
  "connectTips =
     [8226] @ js '' Use a Google App Password and enable IMAP in Gmail settings.'' @ [10] @
     [8226] @ js '' Ensure imap.gmail.com:993 is reachable from the runner.'' @ [10] @
     [8226] @ js '' Run IMAP tests serially to avoid connection limits.''"

definition asArray :: "nat list option \<Rightarrow> nat list" where
  "asArray r = (case r of None \<Rightarrow> [] | Some uids \<Rightarrow> uids)"

definition searchWithRetries :: "imap \<Rightarrow> bool \<Rightarrow> int option \<Rightarrow> nat list \<times> searchQuery list" where
  "searchWithRetries srv unreadOnly' sinceDate =
     (let searchQuery = \<lparr>seen = (if unreadOnly' then Some False else None), since = sinceDate\<rparr>;
          uidsArr1 = asArray (searchResult srv searchQuery);
          (uidsArr2, log2) =
            (if uidsArr1 = [] \<and> sinceDate \<noteq> None
             then (let retryNoSince = \<lparr>seen = (if unreadOnly' then Some False else None), since = None\<rparr>;
                       retryArr = asArray (searchResult srv retryNoSince)
                   in (if retryArr \<noteq> [] then retryArr else uidsArr1, [retryNoSince]))
             else (uidsArr1, []));
          (uidsArr3, log3) =
            (if uidsArr2 = [] \<and> unreadOnly'
             then (let retryAll = \<lparr>seen = None, since = None\<rparr>;
                       retryAllArr = asArray (searchResult srv retryAll)
                   in (if retryAllArr \<noteq> [] then retryAllArr else uidsArr2, [retryAll]))
             else (uidsArr2, []))
      in (uidsArr3, [searchQuery] @ log2 @ log3))"

definition sliceTo :: "int \<Rightarrow> 'a list \<Rightarrow> 'a list" where
  "sliceTo end xs = (if end < 0 then take (nat (int (length xs) + end)) xs else take (nat end) xs)"

function collapseSpaces :: "jsstring \<Rightarrow> jsstring" where
  "collapseSpaces [] = []"
| "collapseSpaces (c # cs) =
     (if isWhiteSpace c then 32 # collapseSpaces (dropWhile isWhiteSpace cs)
      else c # collapseSpaces cs)"
  by pat_completeness auto
termination
  by (relation "measure length") (auto simp: le_imp_less_Suc length_dropWhile_le)

definition passes :: "(jsstring \<Rightarrow> jsstring) \<Rightarrow> jsstring option \<Rightarrow> jsstring \<Rightarrow> bool" where
  "passes toLowerCase wanted actual =
     (case wanted of
        None \<Rightarrow> True
      | Some w \<Rightarrow> if w = [] then True else includesStr (toLowerCase actual) (toLowerCase w))"

datatype processed = Thrown jsstring | Skipped | Pushed email

definition processMessage ::
  "(jsstring \<Rightarrow> jsstring) \<Rightarrow> imap \<Rightarrow> emailFilter \<Rightarrow> nat \<Rightarrow> processed \<times> imapCall list" where
  "processMessage toLowerCase srv f u =
     (case downloadResult srv u of
        Inl err \<Rightarrow> (Thrown err, [Download u])
      | Inr None \<Rightarrow> (Skipped, [Download u])
      | Inr (Some raw) \<Rightarrow>
          (case parseResult srv raw of
             Inl err \<Rightarrow> (Thrown err, [Download u])
           | Inr parsed \<Rightarrow>
               (let fromText = orEmpty (parsedFrom parsed);
                    subject' = orEmpty (parsedSubject parsed);
                    bodyText = (case parsedText parsed of
                                  Some t \<Rightarrow> t
                                | None \<Rightarrow> orEmpty (parsedHtmlAsText parsed));
                    toText = orEmpty (parsedTo parsed);
                    toAddresses' = (case parsedToValue parsed of
                                      Some vs \<Rightarrow> filter (\<lambda>a. a \<noteq> []) (map (\<lambda>v. trim (orEmpty v)) vs)
                                    | None \<Rightarrow> []);
                    okFrom = passes toLowerCase (fromContains f) fromText;
                    okSubject = passes toLowerCase (subjectContains f) subject';
                    okBody = passes toLowerCase (bodyIncludes f) bodyText
                in if \<not> (okFrom \<and> okSubject \<and> okBody) then (Skipped, [Download u])
                   else (Pushed
                          \<lparr>uid = u,
                           internalDateMs = None,
                           date = parsedDate parsed,
                           fromHeader = Some fromText,
                           toHeader = Some toText,
                           toAddresses = Some toAddresses',
                           subject = Some subject',
                           textBody = parsedText parsed,
                           htmlAsText = parsedHtmlAsText parsed,
                           snippet = Some (take 200 (trim (collapseSpaces bodyText))),
                           attachments =
                             map (\<lambda>a. a\<lparr>content := (if orElse (includeAttachments f) False
                                                       then content a else None)\<rparr>)
                                 (orElse (parsedAttachments parsed) [])\<rparr>,
                         if orElse (markSeen f) False
                         then [Download u, MessageFlagsAdd u] else [Download u]))))"

fun processAll ::
  "(jsstring \<Rightarrow> jsstring) \<Rightarrow> imap \<Rightarrow> emailFilter \<Rightarrow> email list \<Rightarrow> nat list \<Rightarrow> email list \<times> imapCall list" where
  "processAll toLowerCase srv f results [] = (results, [])"
| "processAll toLowerCase srv f results (u # us) =
     (case processMessage toLowerCase srv f u of
        (Thrown err, calls) \<Rightarrow>
          (let (r, more) = processAll toLowerCase srv f results us in (r, calls @ more))
      | (Skipped, calls) \<Rightarrow>
          (let (r, more) = processAll toLowerCase srv f results us in (r, calls @ more))
      | (Pushed e, calls) \<Rightarrow>
          (let results' = results @ [e]
           in if int (length results') \<ge> orElse (limit f) 20 then (results', calls)
              else (let (r, more) = processAll toLowerCase srv f results' us in (r, calls @ more))))"

definition fetchEmails ::
  "(jsstring \<Rightarrow> jsstring) \<Rightarrow> imap \<Rightarrow> int \<Rightarrow> emailFilter \<Rightarrow> (failure + email list) \<times> imapCall list" where
  "fetchEmails toLowerCase srv now f =
     (let mailbox' = orElse (mailbox f) (js ''INBOX'');
          unreadOnly' = orElse (unreadOnly f) False;
          limit' = orElse (limit f) 20;
          markSeen' = orElse (markSeen f) False;
          sortNewestFirst' = orElse (sortNewestFirst f) True
      in case connectError srv of
           Some msg \<Rightarrow>
             (Inl (ConnectFailed (js ''IMAP connect failed: '' @ msg @ [10] @ connectTips)),
              [Connect])
         | None \<Rightarrow>
             if mailbox' \<notin> set (boxes srv)
             then (Inl (MailboxNotFound
                          (js ''Mailbox '' @ [34] @ mailbox' @ [34] @
                           js '' does not exist. Available: '' @ joinWith (js '', '') (boxes srv))),
                   [Connect, ListBoxes, Logout])
             else
               (let sinceDate = (case sinceMs f of
                                   None \<Rightarrow> None
                                 | Some ms \<Rightarrow> if ms = 0 then None else Some (now - ms));
                    (uidsArr, searches) = searchWithRetries srv unreadOnly' sinceDate;
                    ordered = sliceTo (max (limit' * 3) limit')
                                (if sortNewestFirst' then rev uidsArr else uidsArr);
                    (results, calls) = processAll toLowerCase srv f [] ordered
                in (Inr results,
                    [Connect, ListBoxes, MailboxOpen mailbox' (\<not> markSeen')] @ map Search searches
                      @ calls @ [Logout])))"

section \<open>The Poll-and-Extract Engine (\<^verbatim>\<open>waitAndExtractUrlByRecipient\<close>, utils/gmailHelpers.ts)\<close>

text \<open>
  \<^verbatim>\<open>
  const deadline = Date.now() + timeoutSeconds * 1000;
  const targetRecipient = normalizeGmail(recipientEmail);
  const subjectNeedle = subjectKeyword.toLowerCase();
  const urlNeedle = urlKeyword.toLowerCase();
  while (Date.now() < deadline) {
    const emails: any[] = await fetchEmails({ mailbox, unreadOnly, sinceMs, limit,
      sortNewestFirst: true, subjectContains: subjectKeyword });
    ...
    await new Promise((r) => setTimeout(r, pollIntervalMs));
  }
  throw new Error(`Timed out after ${timeoutSeconds}s: no URL containing "${urlKeyword}"
    found for "${recipientEmail}" with subject containing "${subjectKeyword}".`);
  \<close>
  (the message is one line in the source). Times are integers: \<open>timeoutSeconds\<close> in
  seconds, everything else in milliseconds.

  The \<open>world\<close> holds the clock (\<^verbatim>\<open>Date.now()\<close>) and what the call has done so far: the
  filters it passed to the Gateway, the IMAP commands sent, and the waits it asked for.
  The environment is a script with one \<open>cycle\<close> per turn of the loop: the state of the
  server at the query, the time the query takes and the time the wait takes. The clock
  moves only at these two awaits. \<open>pollLoop\<close> returns \<open>None\<close> when the script ends while the
  loop would go on; a resolved promise is \<open>Resolved\<close>, a rejected one \<open>Rejected\<close>, and an
  error of the Gateway rejects the call.
\<close>

record waitOptions =
  optSinceMs :: "int option"
  optUnreadOnly :: "bool option"
  optLimit :: "int option"
  optMailbox :: "jsstring option"

record cycle =
  server :: imap
  fetchMs :: int
  sleepMs :: int

record world =
  clock :: int
  fetches :: "emailFilter list"
  imapCalls :: "imapCall list"
  sleeps :: "int list"

datatype outcome = Resolved jsstring | Rejected failure

function showNat :: "nat \<Rightarrow> jsstring" where
  "showNat n = (if n < 10 then [48 + n] else showNat (n div 10) @ [48 + n mod 10])"
  by pat_completeness auto
termination
  by (relation "measure id") auto

declare showNat.simps [simp del]

definition showInt :: "int \<Rightarrow> jsstring" where
  "showInt i = (if i < 0 then 45 # showNat (nat (- i)) else showNat (nat i))"

definition timeoutMessage :: "int \<Rightarrow> jsstring \<Rightarrow> jsstring \<Rightarrow> jsstring \<Rightarrow> jsstring" where
  "timeoutMessage timeoutSeconds urlKeyword recipientEmail subjectKeyword =
     js ''Timed out after '' @ showInt timeoutSeconds @ js ''s: no URL containing '' @ [34] @
     urlKeyword @ [34] @ js '' found for '' @ [34] @ recipientEmail @ [34] @
     js '' with subject containing '' @ [34] @ subjectKeyword @ [34] @ js ''.''"

record request =
  recipientEmail :: jsstring
  subjectKeyword :: jsstring
  urlKeyword :: jsstring
  timeoutSeconds :: int
  pollIntervalMs :: int
  filterSpec :: emailFilter

record locals =
  deadline :: int
  targetRecipient :: jsstring
  subjectNeedle :: jsstring
  urlNeedle :: jsstring

definition timedOut :: "request \<Rightarrow> failure" where
  "timedOut rq =
     Timeout (timeoutMessage (timeoutSeconds rq) (urlKeyword rq) (recipientEmail rq)
                (subjectKeyword rq))"

fun pollLoop ::
  "(jsstring \<Rightarrow> jsstring) \<Rightarrow> request \<Rightarrow> locals \<Rightarrow> cycle list \<Rightarrow> world \<Rightarrow> (outcome \<times> world) option" where
  "pollLoop toLowerCase rq lc [] w =
     (if clock w < deadline lc then None else Some (Rejected (timedOut rq), w))"
| "pollLoop toLowerCase rq lc (c # cs) w =
     (if clock w < deadline lc
      then (case fetchEmails toLowerCase (server c) (clock w) (filterSpec rq) of
              (fetched, calls) \<Rightarrow>
                (let w1 = w\<lparr>clock := clock w + fetchMs c,
                            fetches := fetches w @ [filterSpec rq],
                            imapCalls := imapCalls w @ calls\<rparr>
                 in case fetched of
                      Inl err \<Rightarrow> Some (Rejected err, w1)
                    | Inr emails \<Rightarrow>
                        (case pollCycle toLowerCase (targetRecipient lc) (subjectNeedle lc) (urlNeedle lc)
                                emails of
                           Some match \<Rightarrow> Some (Resolved match, w1)
                         | None \<Rightarrow>
                             pollLoop toLowerCase rq lc cs
                               (w1\<lparr>clock := clock w1 + sleepMs c,
                                   sleeps := sleeps w1 @ [pollIntervalMs rq]\<rparr>))))
      else Some (Rejected (timedOut rq), w))"

definition withDefaults ::
  "jsstring \<Rightarrow> jsstring \<Rightarrow> jsstring \<Rightarrow> int option \<Rightarrow> int option \<Rightarrow> waitOptions option
     \<Rightarrow> request" where
  "withDefaults recipientEmail' subjectKeyword' urlKeyword' timeoutSeconds' pollIntervalMs' options =
     (let opts = orElse options \<lparr>optSinceMs = None, optUnreadOnly = None, optLimit = None,
                                 optMailbox = None\<rparr>
      in \<lparr>recipientEmail = recipientEmail',
          subjectKeyword = subjectKeyword',
          urlKeyword = urlKeyword',
          timeoutSeconds = orElse timeoutSeconds' 60,
          pollIntervalMs = orElse pollIntervalMs' 3000,
          filterSpec =
            \<lparr>mailbox = Some (orElse (optMailbox opts) (js ''INBOX'')),
             unreadOnly = Some (orElse (optUnreadOnly opts) False),
             fromContains = None,
             subjectContains = Some subjectKeyword',
             bodyIncludes = None,
             sinceMs = Some (orElse (optSinceMs opts) (24 * 60 * 60 * 1000)),
             limit = Some (orElse (optLimit opts) 100),
             includeAttachments = None,
             markSeen = None,
             sortNewestFirst = Some True\<rparr>\<rparr>)"

definition waitAndExtractUrlByRecipient ::
  "(jsstring \<Rightarrow> jsstring) \<Rightarrow> jsstring \<Rightarrow> jsstring \<Rightarrow> jsstring \<Rightarrow> int option \<Rightarrow> int option \<Rightarrow> waitOptions option
     \<Rightarrow> cycle list \<Rightarrow> world \<Rightarrow> (outcome \<times> world) option" where
  "waitAndExtractUrlByRecipient toLowerCase recipientEmail' subjectKeyword' urlKeyword' timeoutSeconds'
       pollIntervalMs' options cycles w =
     (let rq = withDefaults recipientEmail' subjectKeyword' urlKeyword' timeoutSeconds'
                 pollIntervalMs' options;
          lc = \<lparr>deadline = clock w + timeoutSeconds rq * 1000,
                targetRecipient = normalizeGmail toLowerCase recipientEmail',
                subjectNeedle = toLowerCase subjectKeyword',
                urlNeedle = toLowerCase urlKeyword'\<rparr>
      in pollLoop toLowerCase rq lc cycles w)"

section \<open>Properties of the address normalizer\<close>

lemma includesStr_single: "includesStr s [c] \<longleftrightarrow> c \<in> set s"
  by (induction s) auto

lemma splitChar_takeWhile:
  "splitChar c s = takeWhile (\<lambda>x. x \<noteq> c) s #
     (case dropWhile (\<lambda>x. x \<noteq> c) s of [] \<Rightarrow> [] | _ # r \<Rightarrow> splitChar c r)"
  by (induction s) (auto split: list.splits)

lemma normalizeGmail_unfold:
  "normalizeGmail toLowerCase a =
     (let lower = toLowerCase (trim a) in
      if 64 \<notin> set lower then lower
      else let local = takeWhile (\<lambda>x. x \<noteq> 64) lower;
               domain = takeWhile (\<lambda>x. x \<noteq> 64) (tl (dropWhile (\<lambda>x. x \<noteq> 64) lower))
           in if domain = js ''gmail.com'' \<or> domain = js ''googlemail.com''
              then takeWhile (\<lambda>x. x \<noteq> 43) local @ [64] @ domain
              else lower)"
proof -
  define lower where "lower = toLowerCase (trim a)"
  have at: "js ''@'' = [64]" by (simp add: js_def)
  show ?thesis
  proof (cases "64 \<in> set lower")
    case False
    then show ?thesis
      by (simp add: normalizeGmail_def Let_def lower_def[symmetric] at includesStr_single)
  next
    case True
    then obtain r where r: "dropWhile (\<lambda>x. x \<noteq> 64) lower = 64 # r"
      by (metis (mono_tags, lifting) dropWhile_eq_Nil_conv hd_dropWhile list.exhaust list.sel(1))
    have s1: "splitChar 64 lower = takeWhile (\<lambda>x. x \<noteq> 64) lower # splitChar 64 r"
      using splitChar_takeWhile[of 64 lower] r by simp
    obtain rest where s2: "splitChar 64 r = takeWhile (\<lambda>x. x \<noteq> 64) r # rest"
      using splitChar_takeWhile[of 64 r] by blast
    obtain ps where s3: "splitChar 43 (takeWhile (\<lambda>x. x \<noteq> 64) lower) =
        takeWhile (\<lambda>x. x \<noteq> 43) (takeWhile (\<lambda>x. x \<noteq> 64) lower) # ps"
      using splitChar_takeWhile[of 43 "takeWhile (\<lambda>x. x \<noteq> 64) lower"] by blast
    show ?thesis
      using True
      by (simp add: normalizeGmail_def Let_def lower_def[symmetric] at includesStr_single s1 s2 s3 r)
  qed
qed

subsection \<open>The Latin-1 lowercasing has the properties listed in \<open>lowercasing\<close>\<close>

lemma isWhiteSpace_lowerUnit: "isWhiteSpace (lowerUnit c) = isWhiteSpace c"
  by (auto simp: isWhiteSpace_def lowerUnit_def)

lemma lowerUnit_idem: "lowerUnit (lowerUnit c) = lowerUnit c"
  by (auto simp: lowerUnit_def)

lemma dropWhile_ws_lower:
  "dropWhile isWhiteSpace (map lowerUnit s) = map lowerUnit (dropWhile isWhiteSpace s)"
  by (induction s) (simp_all add: isWhiteSpace_lowerUnit)

lemma trim_latin1LowerCase: "trim (latin1LowerCase s) = latin1LowerCase (trim s)"
  by (simp add: trim_def latin1LowerCase_def dropWhile_ws_lower rev_map)

lemma trim_fixed:
  "s = [] \<or> (\<not> isWhiteSpace (hd s) \<and> \<not> isWhiteSpace (last s)) \<Longrightarrow> trim s = s"
proof (cases s)
  case Nil
  then show ?thesis by (simp add: trim_def)
next
  case (Cons c cs)
  assume "s = [] \<or> (\<not> isWhiteSpace (hd s) \<and> \<not> isWhiteSpace (last s))"
  with Cons have h: "\<not> isWhiteSpace c" and l: "\<not> isWhiteSpace (last s)" by auto
  have "dropWhile isWhiteSpace s = s" using Cons h by simp
  moreover have "dropWhile isWhiteSpace (rev s) = rev s"
    using Cons l by (cases "rev s") (auto simp: hd_rev[symmetric])
  ultimately show ?thesis by (simp add: trim_def)
qed

lemma trim_ends:
  "trim s = [] \<or> (\<not> isWhiteSpace (hd (trim s)) \<and> \<not> isWhiteSpace (last (trim s)))"
proof (cases "trim s = []")
  case True
  then show ?thesis by simp
next
  case False
  define t where "t = dropWhile isWhiteSpace s"
  define u where "u = dropWhile isWhiteSpace (rev t)"
  have tr: "trim s = rev u" by (simp add: trim_def t_def u_def)
  with False have une: "u \<noteq> []" by simp
  then have lastok: "\<not> isWhiteSpace (hd u)" unfolding u_def by (metis hd_dropWhile)
  have "\<exists>ws. rev t = ws @ u" unfolding u_def by (metis takeWhile_dropWhile_id)
  then obtain ws where "rev t = ws @ u" ..
  then have tu: "t = rev u @ rev ws" by (metis rev_append rev_rev_ident)
  have tne: "t \<noteq> []" using tu une by simp
  then have "\<not> isWhiteSpace (hd t)" unfolding t_def by (metis hd_dropWhile)
  then have "\<not> isWhiteSpace (hd (rev u))" using tu une by simp
  moreover have "last (rev u) = hd u" using une by (simp add: last_rev)
  ultimately show ?thesis using tr lastok by simp
qed

lemma trim_idem: "trim (trim s) = trim s"
  by (rule trim_fixed) (rule trim_ends)

lemma lowersAscii_latin1: "lowersAscii latin1LowerCase"
  by (simp add: lowersAscii_def latin1LowerCase_def)

lemma lowercasing_latin1: "lowercasing latin1LowerCase"
  unfolding lowercasing_def
proof (intro conjI allI impI)
  show "lowersAscii latin1LowerCase" by (rule lowersAscii_latin1)
  show "latin1LowerCase (latin1LowerCase s) = latin1LowerCase s" for s
    by (simp add: latin1LowerCase_def lowerUnit_idem)
  show "trim (latin1LowerCase (trim s)) = latin1LowerCase (trim s)" for s
    by (simp add: trim_latin1LowerCase trim_idem)
  show "latin1LowerCase (x @ [64] @ y) = latin1LowerCase x @ [64] @ latin1LowerCase y" for x y
    by (simp add: latin1LowerCase_def lowerUnit_def)
  show "latin1LowerCase (x @ [43] @ y) = latin1LowerCase x @ [43] @ latin1LowerCase y" for x y
    by (simp add: latin1LowerCase_def lowerUnit_def)
  show "64 \<in> set x" if "64 \<in> set (latin1LowerCase x)" for x
    using that by (auto simp: latin1LowerCase_def lowerUnit_def split: if_splits)
  show "43 \<in> set x" if "43 \<in> set (latin1LowerCase x)" for x
    using that by (auto simp: latin1LowerCase_def lowerUnit_def split: if_splits)
qed

lemma lowersAscii_eq:
  "lowersAscii toLowerCase \<Longrightarrow> \<forall>c\<in>set s. c < 128 \<Longrightarrow> toLowerCase s = latin1LowerCase s"
  by (simp add: lowersAscii_def latin1LowerCase_def)

lemma trim_subset: "set (trim s) \<subseteq> set s"
  unfolding trim_def by (auto dest!: set_dropWhileD)

lemma normalizeGmail_ascii:
  assumes "lowersAscii toLowerCase" and "\<forall>c\<in>set a. c < 128"
  shows "normalizeGmail toLowerCase a = normalizeGmail latin1LowerCase a"
proof -
  have "\<forall>c\<in>set (trim a). c < 128" using assms(2) trim_subset[of a] by auto
  then have "toLowerCase (trim a) = latin1LowerCase (trim a)"
    using assms(1) by (rule lowersAscii_eq[rotated])
  then show ?thesis by (simp add: normalizeGmail_def)
qed

subsection \<open>Idempotence\<close>

lemma first_split_unique:
  assumes "xs @ [c] @ ys = xs' @ [c] @ ys'" and "c \<notin> set xs" and "c \<notin> set xs'"
  shows "xs = xs'"
proof -
  have a: "\<forall>x\<in>set xs. x \<noteq> c" and b: "\<forall>x\<in>set xs'. x \<noteq> c"
    using assms(2,3) by auto
  have "takeWhile (\<lambda>x. x \<noteq> c) (xs @ [c] @ ys) = xs"
    using a by (simp add: takeWhile_append2)
  moreover have "takeWhile (\<lambda>x. x \<noteq> c) (xs' @ [c] @ ys') = xs'"
    using b by (simp add: takeWhile_append2)
  ultimately show ?thesis using assms(1) by simp
qed

lemma lowercasing_prefix_fixed:
  assumes split: "\<forall>x y. toLowerCase (x @ [c] @ y) = toLowerCase x @ [c] @ toLowerCase y"
    and nonew: "\<forall>x. c \<in> set (toLowerCase x) \<longrightarrow> c \<in> set x"
    and fixed: "toLowerCase s = s"
  shows "toLowerCase (takeWhile (\<lambda>x. x \<noteq> c) s) = takeWhile (\<lambda>x. x \<noteq> c) s"
proof (cases "c \<in> set s")
  case False
  then have e: "takeWhile (\<lambda>x. x \<noteq> c) s = s" by (auto simp: takeWhile_eq_all_conv)
  show ?thesis unfolding e by (rule fixed)
next
  case True
  let ?p = "takeWhile (\<lambda>x. x \<noteq> c) s"
  from True obtain r where r: "dropWhile (\<lambda>x. x \<noteq> c) s = c # r"
    by (metis (mono_tags, lifting) dropWhile_eq_Nil_conv hd_dropWhile list.exhaust list.sel(1))
  have s: "s = ?p @ [c] @ r" using r by (metis append_Cons append_Nil takeWhile_dropWhile_id)
  have np: "c \<notin> set ?p" by (auto dest!: set_takeWhileD)
  then have nlp: "c \<notin> set (toLowerCase ?p)" using nonew by blast
  have "toLowerCase ?p @ [c] @ toLowerCase r = toLowerCase (?p @ [c] @ r)"
    using split by simp
  also have "\<dots> = ?p @ [c] @ r" using fixed s by simp
  finally show ?thesis using nlp np by (rule first_split_unique)
qed

text \<open>
  Claim C6. The address normalizer is idempotent: normalizing a normalized address
  changes nothing. \<open>toLowerCase\<close> is any function with the properties of the built-in that
  \<open>lowercasing\<close> lists.
\<close>

theorem normalizeGmail_idempotent:
  assumes lc: "lowercasing toLowerCase"
  shows "normalizeGmail toLowerCase (normalizeGmail toLowerCase a) = normalizeGmail toLowerCase a"
proof -
  define lower where "lower = toLowerCase (trim a)"
  define loc where "loc = takeWhile (\<lambda>x. x \<noteq> 64) lower"
  define d where "d = takeWhile (\<lambda>x. x \<noteq> 64) (tl (dropWhile (\<lambda>x. x \<noteq> 64) lower))"
  define p where "p = takeWhile (\<lambda>x. x \<noteq> 43) loc"
  from lc have asc: "lowersAscii toLowerCase"
    and idem: "\<forall>s. toLowerCase (toLowerCase s) = toLowerCase s"
    and trimmed: "\<forall>s. trim (toLowerCase (trim s)) = toLowerCase (trim s)"
    and split64: "\<forall>x y. toLowerCase (x @ [64] @ y) = toLowerCase x @ [64] @ toLowerCase y"
    and split43: "\<forall>x y. toLowerCase (x @ [43] @ y) = toLowerCase x @ [43] @ toLowerCase y"
    and new64: "\<forall>x. 64 \<in> set (toLowerCase x) \<longrightarrow> 64 \<in> set x"
    and new43: "\<forall>x. 43 \<in> set (toLowerCase x) \<longrightarrow> 43 \<in> set x"
    unfolding lowercasing_def by blast+
  have triml: "trim lower = lower" using trimmed by (simp add: lower_def)
  have lowl: "toLowerCase lower = lower" using idem by (simp add: lower_def)
  have fixl: "toLowerCase (trim lower) = lower" by (simp add: triml lowl)
  show ?thesis
  proof (cases "64 \<in> set lower \<and> (d = js ''gmail.com'' \<or> d = js ''googlemail.com'')")
    case False
    then have "normalizeGmail toLowerCase a = lower"
      by (auto simp: normalizeGmail_unfold Let_def lower_def d_def)
    moreover have "normalizeGmail toLowerCase lower = lower"
      using False by (auto simp: normalizeGmail_unfold[of toLowerCase lower] Let_def fixl d_def)
    ultimately show ?thesis by simp
  next
    case True
    then have r: "normalizeGmail toLowerCase a = p @ [64] @ d"
      by (auto simp: normalizeGmail_unfold Let_def lower_def d_def p_def loc_def)
    from True have dl: "d \<noteq> []" "last d = 109" "64 \<notin> set d" "\<forall>c\<in>set d. c < 128"
      "latin1LowerCase d = d"
      by (auto simp: js_def latin1LowerCase_def lowerUnit_def)
    have lowd: "toLowerCase d = d" using lowersAscii_eq[OF asc dl(4)] dl(5) by simp
    have p64: "\<forall>x\<in>set p. x \<noteq> 64"
      unfolding p_def loc_def by (auto dest!: set_takeWhileD)
    have p43: "\<forall>x\<in>set p. x \<noteq> 43"
      unfolding p_def by (auto dest!: set_takeWhileD)
    have hdp: "p \<noteq> [] \<Longrightarrow> hd p = hd lower \<and> lower \<noteq> []"
      unfolding p_def loc_def by (cases lower) (auto split: if_splits)
    have hdr: "\<not> isWhiteSpace (hd (p @ [64] @ d))"
    proof (cases "p = []")
      case True
      then show ?thesis by (simp add: isWhiteSpace_def)
    next
      case False
      with hdp have "hd p = hd lower" "lower \<noteq> []" by auto
      moreover have "\<not> isWhiteSpace (hd lower)"
        using trim_ends[of lower] triml \<open>lower \<noteq> []\<close> by simp
      ultimately show ?thesis using False by simp
    qed
    have lastr: "\<not> isWhiteSpace (last (p @ [64] @ d))"
      using dl by (simp add: isWhiteSpace_def)
    have trimr: "trim (p @ [64] @ d) = p @ [64] @ d"
      by (rule trim_fixed) (use hdr lastr in blast)
    have lowloc: "toLowerCase loc = loc"
      unfolding loc_def using split64 new64 lowl by (rule lowercasing_prefix_fixed)
    have lowp: "toLowerCase p = p"
      unfolding p_def using split43 new43 lowloc by (rule lowercasing_prefix_fixed)
    have lowr: "toLowerCase (p @ [64] @ d) = p @ [64] @ d"
      using split64 lowp lowd by simp
    have tw: "takeWhile (\<lambda>x. x \<noteq> 64) (p @ [64] @ d) = p"
      using p64 by (simp add: takeWhile_append2)
    have dw: "dropWhile (\<lambda>x. x \<noteq> 64) (p @ [64] @ d) = 64 # d"
      using p64 by (simp add: dropWhile_append2)
    have twd: "takeWhile (\<lambda>x. x \<noteq> 64) d = d"
      using dl(3) by (auto simp: takeWhile_eq_all_conv)
    have twp: "takeWhile (\<lambda>x. x \<noteq> 43) p = p"
      using p43 by (auto simp: takeWhile_eq_all_conv)
    have "normalizeGmail toLowerCase (p @ [64] @ d) = p @ [64] @ d"
      unfolding normalizeGmail_unfold[of toLowerCase "p @ [64] @ d"] Let_def trimr lowr tw dw
        list.sel twd twp
      using True by auto
    with r show ?thesis by simp
  qed
qed

theorem normalizeGmail_idempotent_witness:
  "lowercasing latin1LowerCase
   \<and> normalizeGmail latin1LowerCase (js '' User+tag@GMail.com '') = js ''user@gmail.com''
   \<and> normalizeGmail latin1LowerCase (normalizeGmail latin1LowerCase (js '' User+tag@GMail.com ''))
       = js ''user@gmail.com''"
proof -
  have e: "normalizeGmail latin1LowerCase (js '' User+tag@GMail.com '') = js ''user@gmail.com''"
    by (simp add: normalizeGmail_def js_def latin1LowerCase_def lowerUnit_def trim_def
        isWhiteSpace_def)
  show ?thesis
    using normalizeGmail_idempotent[OF lowercasing_latin1, of "js '' User+tag@GMail.com ''"]
      lowercasing_latin1 e
    by simp
qed

text \<open>
  What the normalizer returns, by domain. Let the trimmed, lowercased address be \<open>local\<close>,
  then the code unit \<open>@\<close> (64), then \<open>rest\<close>, with no \<open>@\<close> in \<open>local\<close>, and let \<open>domain\<close> be
  \<open>rest\<close> up to the next \<open>@\<close>, which is all of \<open>rest\<close> for an address with a single \<open>@\<close>. If
  \<open>domain\<close> is \<open>gmail.com\<close> or \<open>googlemail.com\<close>, the normalizer returns \<open>local\<close> cut before
  its first \<open>+\<close>, then \<open>@\<close>, then \<open>domain\<close>. Otherwise it returns the trimmed lowercased
  address itself, \<open>+\<close> and all. So \<open>User+tag@gmail.com\<close> and \<open>user@gmail.com\<close> normalize to
  the same string, and \<open>A+b@example.com\<close> normalizes to \<open>a+b@example.com\<close>.
\<close>

lemma normalizeGmail_by_domain:
  assumes "toLowerCase (trim a) = local @ [64] @ rest"
    and "64 \<notin> set local"
    and "domain = takeWhile (\<lambda>x. x \<noteq> 64) rest"
  shows "(if domain = js ''gmail.com'' \<or> domain = js ''googlemail.com''
          then normalizeGmail toLowerCase a = takeWhile (\<lambda>x. x \<noteq> 43) local @ [64] @ domain
          else normalizeGmail toLowerCase a = toLowerCase (trim a))
         \<and> (lowersAscii lc \<longrightarrow>
               normalizeGmail lc (js ''User+tag@gmail.com'') = normalizeGmail lc (js ''user@gmail.com'')
               \<and> normalizeGmail lc (js ''A+b@example.com'') = js ''a+b@example.com'')"
proof -
  have l64: "\<forall>x\<in>set local. x \<noteq> 64"
    using assms(2) by auto
  have tw: "takeWhile (\<lambda>x. x \<noteq> 64) (local @ [64] @ rest) = local"
    using l64 by (simp add: takeWhile_append2)
  have dw: "dropWhile (\<lambda>x. x \<noteq> 64) (local @ [64] @ rest) = 64 # rest"
    using l64 by (simp add: dropWhile_append2)
  have g: "if domain = js ''gmail.com'' \<or> domain = js ''googlemail.com''
        then normalizeGmail toLowerCase a = takeWhile (\<lambda>x. x \<noteq> 43) local @ [64] @ domain
        else normalizeGmail toLowerCase a = toLowerCase (trim a)"
    unfolding normalizeGmail_unfold[of toLowerCase a] Let_def assms(1) tw dw list.sel assms(3)
    by simp
  have e: "normalizeGmail lc (js ''User+tag@gmail.com'') = normalizeGmail lc (js ''user@gmail.com'')
           \<and> normalizeGmail lc (js ''A+b@example.com'') = js ''a+b@example.com''"
    if asc: "lowersAscii lc"
  proof -
    have "normalizeGmail lc (js ''User+tag@gmail.com'')
            = normalizeGmail latin1LowerCase (js ''User+tag@gmail.com'')"
      by (rule normalizeGmail_ascii[OF asc]) (simp add: js_def)
    moreover have "normalizeGmail lc (js ''user@gmail.com'')
            = normalizeGmail latin1LowerCase (js ''user@gmail.com'')"
      by (rule normalizeGmail_ascii[OF asc]) (simp add: js_def)
    moreover have "normalizeGmail lc (js ''A+b@example.com'')
            = normalizeGmail latin1LowerCase (js ''A+b@example.com'')"
      by (rule normalizeGmail_ascii[OF asc]) (simp add: js_def)
    moreover have "normalizeGmail latin1LowerCase (js ''User+tag@gmail.com'')
            = normalizeGmail latin1LowerCase (js ''user@gmail.com'')"
      by (simp add: normalizeGmail_def js_def latin1LowerCase_def lowerUnit_def trim_def
          isWhiteSpace_def)
    moreover have "normalizeGmail latin1LowerCase (js ''A+b@example.com'') = js ''a+b@example.com''"
      by (simp add: normalizeGmail_def js_def latin1LowerCase_def lowerUnit_def trim_def
          isWhiteSpace_def)
    ultimately show ?thesis by simp
  qed
  from g e show ?thesis by blast
qed

lemma normalizeGmail_by_domain_examples:
  "normalizeGmail latin1LowerCase (js '' User+tag@GMail.com'') = js ''user@gmail.com''
   \<and> normalizeGmail latin1LowerCase (js ''Boss+x@Corp.example '') = js ''boss+x@corp.example''
   \<and> normalizeGmail latin1LowerCase (js ''A+b@example.com'') = js ''a+b@example.com''"
proof -
  have l1: "latin1LowerCase (trim (js '' User+tag@GMail.com'')) = js ''user+tag'' @ [64] @ js ''gmail.com''"
    by (simp add: js_def latin1LowerCase_def lowerUnit_def trim_def isWhiteSpace_def)
  have n1: "64 \<notin> set (js ''user+tag'')" by (simp add: js_def)
  have d1: "js ''gmail.com'' = takeWhile (\<lambda>x. x \<noteq> 64) (js ''gmail.com'')" by (simp add: js_def)
  have l2: "latin1LowerCase (trim (js ''Boss+x@Corp.example '')) = js ''boss+x'' @ [64] @ js ''corp.example''"
    by (simp add: js_def latin1LowerCase_def lowerUnit_def trim_def isWhiteSpace_def)
  have n2: "64 \<notin> set (js ''boss+x'')" by (simp add: js_def)
  have d2: "js ''corp.example'' = takeWhile (\<lambda>x. x \<noteq> 64) (js ''corp.example'')" by (simp add: js_def)
  have "normalizeGmail latin1LowerCase (js '' User+tag@GMail.com'') = js ''user@gmail.com''"
    using normalizeGmail_by_domain[where toLowerCase=latin1LowerCase, OF l1 n1 d1]
    by (simp add: js_def)
  moreover have "normalizeGmail latin1LowerCase (js ''Boss+x@Corp.example '') = js ''boss+x@corp.example''"
    using normalizeGmail_by_domain[where toLowerCase=latin1LowerCase, OF l2 n2 d2] l2
    by (simp add: js_def)
  moreover have "normalizeGmail latin1LowerCase (js ''A+b@example.com'') = js ''a+b@example.com''"
    using normalizeGmail_by_domain[where toLowerCase=latin1LowerCase and lc=latin1LowerCase,
        OF l2 n2 d2] lowersAscii_latin1
    by blast
  ultimately show ?thesis by simp
qed

text \<open>
  Claim C7. For an address whose domain is \<open>gmail.com\<close> or \<open>googlemail.com\<close> the normalizer
  strips the local part from its first \<open>+\<close> on; for an address with any other domain it
  returns the trimmed lowercased string with no stripping. For an address with a single
  \<open>@\<close> this is \<open>normalizeGmail_by_domain\<close>. It does not hold of every address. The
  specification splits at the first \<open>@\<close>, so that \<open>a+b@gmail.com@x.example\<close> has the domain
  \<open>gmail.com@x.example\<close>, which is neither \<open>gmail.com\<close> nor \<open>googlemail.com\<close>; the claim has
  this address returned as it is. The normalizer keeps only the first two pieces of
  \<^verbatim>\<open>lower.split("@")\<close>, compares the second with the two domains, and returns
  \<open>a@gmail.com\<close>: the \<open>+\<close> part is stripped and \<open>@x.example\<close> is lost.
\<close>

theorem normalizeGmail_second_at_sign:
  "tl (dropWhile (\<lambda>x. x \<noteq> 64) (latin1LowerCase (trim (js ''a+b@gmail.com@x.example''))))
     = js ''gmail.com@x.example''
   \<and> js ''gmail.com@x.example'' \<noteq> js ''gmail.com''
   \<and> js ''gmail.com@x.example'' \<noteq> js ''googlemail.com''
   \<and> normalizeGmail latin1LowerCase (js ''a+b@gmail.com@x.example'') = js ''a@gmail.com''
   \<and> normalizeGmail latin1LowerCase (js ''a+b@gmail.com@x.example'')
       \<noteq> latin1LowerCase (trim (js ''a+b@gmail.com@x.example''))"
  by (simp add: normalizeGmail_def js_def latin1LowerCase_def lowerUnit_def trim_def
      isWhiteSpace_def)


section \<open>Properties of the URL extractor\<close>





lemma foldl_urlsAdd_snoc: "foldl urlsAdd [] (xs @ [x]) = urlsAdd (foldl urlsAdd [] xs) x"
  by simp

lemma set_foldl_urlsAdd: "set (foldl urlsAdd [] xs) = set xs"
  by (induction xs rule: rev_induct) (auto simp: urlsAdd_def)




lemma stripTrailing_split:
  "\<exists>t. m = stripTrailing m @ t \<and> (\<forall>c\<in>set t. isTrailChar c)"
proof -
  have "rev m = takeWhile isTrailChar (rev m) @ dropWhile isTrailChar (rev m)" by simp
  then have "m = rev (dropWhile isTrailChar (rev m)) @ rev (takeWhile isTrailChar (rev m))"
    by (metis rev_append rev_rev_ident)
  moreover have "\<forall>c\<in>set (rev (takeWhile isTrailChar (rev m))). isTrailChar c"
    by (auto dest: set_takeWhileD)
  ultimately show ?thesis unfolding stripTrailing_def by blast
qed


lemma stripTrailing_keeps:
  "x \<in> set m \<Longrightarrow> \<not> isTrailChar x \<Longrightarrow> x \<in> set (stripTrailing m)"
proof -
  assume a: "x \<in> set m" "\<not> isTrailChar x"
  obtain t where t: "m = stripTrailing m @ t" "\<forall>c\<in>set t. isTrailChar c"
    using stripTrailing_split by blast
  then have "x \<notin> set t" using a by auto
  with a t show ?thesis by (metis Un_iff set_append)
qed


lemma includesStr_sublist: "includesStr s n = sublist n s"
  by (induction s) (auto simp: sublist_Cons_right)

definition isLinkMatch :: "jsstring \<Rightarrow> bool" where
  "isLinkMatch m =
     ((matchesIgnoreCase (js ''https://'') m \<and> 8 < length m \<and> list_all isUrlChar (drop 8 m))
      \<or> (matchesIgnoreCase (js ''http://'') m \<and> 7 < length m \<and> list_all isUrlChar (drop 7 m)))"

lemma matchesIgnoreCase_take:
  "matchesIgnoreCase pat s \<Longrightarrow> matchesIgnoreCase pat (take (length pat) s @ r)"
  by (auto simp: matchesIgnoreCase_def)

lemma len_https: "length (js ''https://'') = 8" by (simp add: js_def)
lemma len_http: "length (js ''http://'') = 7" by (simp add: js_def)

lemma matchAt_shape_n:
  assumes mi: "matchesIgnoreCase pat s"
    and m: "m = take (length pat) s @ takeWhile isUrlChar (drop (length pat) s)"
    and ne: "takeWhile isUrlChar (drop (length pat) s) \<noteq> []"
  shows "prefix m s \<and> matchesIgnoreCase pat m \<and> length pat < length m
         \<and> list_all isUrlChar (drop (length pat) m)"
proof -
  let ?n = "length pat"
  from mi have l: "?n \<le> length s" by (simp add: matchesIgnoreCase_def)
  have "s = take ?n s @ takeWhile isUrlChar (drop ?n s) @ dropWhile isUrlChar (drop ?n s)" by simp
  then have p: "prefix m s" unfolding m by (metis append.assoc prefixI)
  have mm: "matchesIgnoreCase pat m" unfolding m using matchesIgnoreCase_take[OF mi] .
  have dr: "drop ?n m = takeWhile isUrlChar (drop ?n s)" unfolding m using l by simp
  have la: "list_all isUrlChar (drop ?n m)"
    unfolding dr by (auto simp: list_all_iff dest: set_takeWhileD)
  have "length m = ?n + length (takeWhile isUrlChar (drop ?n s))" unfolding m using l by simp
  moreover have "0 < length (takeWhile isUrlChar (drop ?n s))" using ne by simp
  ultimately have "?n < length m" by linarith
  with p mm la show ?thesis by simp
qed

lemma matchAt_shape:
  assumes "matchAt s = Some m"
  shows "prefix m s \<and> isLinkMatch m"
proof (cases "matchesIgnoreCase (js ''https://'') s")
  case True
  from True assms have m: "m = take 8 s @ takeWhile isUrlChar (drop 8 s)"
    and ne: "takeWhile isUrlChar (drop 8 s) \<noteq> []"
    by (auto simp: matchAt_def Let_def split: if_splits)
  show ?thesis
    using matchAt_shape_n[OF True, of m] m ne by (simp add: len_https isLinkMatch_def)
next
  case False
  with assms have h: "matchesIgnoreCase (js ''http://'') s"
    by (auto simp: matchAt_def Let_def split: if_splits)
  from False h assms have m: "m = take 7 s @ takeWhile isUrlChar (drop 7 s)"
    and ne: "takeWhile isUrlChar (drop 7 s) \<noteq> []"
    by (auto simp: matchAt_def Let_def split: if_splits)
  show ?thesis
    using matchAt_shape_n[OF h, of m] m ne by (simp add: len_http isLinkMatch_def)
qed

lemma execAll_matches:
  "m \<in> set (execAll pw s) \<Longrightarrow> sublist m s \<and> isLinkMatch m"
proof (induction pw s rule: execAll.induct)
  case (1 prevWord)
  then show ?case by simp
next
  case (2 prevWord c cs)
  show ?case
  proof (cases "if prevWord \<noteq> isWordChar c then matchAt (c # cs) else None")
    case None
    with 2(1,3) have "sublist m cs \<and> isLinkMatch m" by simp
    then show ?thesis by (auto simp: sublist_Cons_right)
  next
    case (Some m')
    then have ma: "matchAt (c # cs) = Some m'" by (auto split: if_splits)
    from 2(3) Some have "m = m' \<or> m \<in> set (execAll (isWordChar (last m')) (drop (length m') (c # cs)))"
      by simp
    then show ?thesis
    proof
      assume "m = m'"
      then show ?thesis using matchAt_shape[OF ma] by auto
    next
      assume "m \<in> set (execAll (isWordChar (last m')) (drop (length m') (c # cs)))"
      with 2(2)[OF Some] have a: "sublist m (drop (length m') (c # cs))" and b: "isLinkMatch m" by auto
      from a obtain ps ss where "drop (length m') (c # cs) = ps @ m @ ss" by (auto simp: sublist_def)
      then have "c # cs = (take (length m') (c # cs) @ ps) @ m @ ss"
        by (metis append.assoc append_take_drop_id)
      then have "sublist m (c # cs)" unfolding sublist_def by blast
      with b show ?thesis by simp
    qed
  qed
qed

lemma matchesIgnoreCase_slash:
  assumes "matchesIgnoreCase pat m" and "47 \<in> set pat"
  shows "47 \<in> set m"
proof -
  from assms(1) have "map canonUnit (take (length pat) m) = map canonUnit pat"
    by (simp add: matchesIgnoreCase_def)
  then have "canonUnit ` set (take (length pat) m) = canonUnit ` set pat"
    by (metis set_map)
  moreover have "canonUnit 47 = 47" by (simp add: canonUnit_def)
  ultimately have "47 \<in> canonUnit ` set (take (length pat) m)"
    using assms(2) by (metis image_eqI)
  then obtain x where x: "x \<in> set (take (length pat) m)" "canonUnit x = 47" by auto
  then have "x = 47" by (auto simp: canonUnit_def split: if_splits)
  with x show ?thesis by (meson in_set_takeD)
qed

lemma isLinkMatch_slash: "isLinkMatch m \<Longrightarrow> 47 \<in> set m"
  unfolding isLinkMatch_def
  by (auto intro: matchesIgnoreCase_slash simp: js_def)

lemma stripTrailing_nonempty: "isLinkMatch m \<Longrightarrow> stripTrailing m \<noteq> []"
proof -
  assume "isLinkMatch m"
  then have "47 \<in> set m" by (rule isLinkMatch_slash)
  moreover have "\<not> isTrailChar 47" by (simp add: isTrailChar_def)
  ultimately have "47 \<in> set (stripTrailing m)" by (rule stripTrailing_keeps)
  then show ?thesis by (cases "stripTrailing m") simp_all
qed

lemma extractLinks_nonempty: "u \<in> set (extractLinks src) \<Longrightarrow> u \<noteq> []"
proof -
  assume "u \<in> set (extractLinks src)"
  then have "u \<in> set (map stripTrailing (execAll False src))"
    by (simp only: extractLinks_def set_foldl_urlsAdd)
  then obtain m where m: "m \<in> set (execAll False src)" "u = stripTrailing m"
    by auto
  from m(1) have "isLinkMatch m" using execAll_matches by blast
  then show ?thesis unfolding m(2) by (rule stripTrailing_nonempty)
qed





section \<open>Properties of the candidate filter\<close>

text \<open>
  \<open>specQualifies\<close> is the qualification rule in the words of the specification: the
  lowercased subject contains the subject needle, and the normalized recipient address
  list contains the normalized target or the lowercased raw recipient header contains it.
\<close>

definition specQualifies :: "(jsstring \<Rightarrow> jsstring) \<Rightarrow> jsstring \<Rightarrow> jsstring \<Rightarrow> email \<Rightarrow> bool" where
  "specQualifies toLowerCase target needle e =
     (includesStr (toLowerCase (orEmpty (subject e))) needle
      \<and> (target \<in> set (map (normalizeGmail toLowerCase) (orElse (toAddresses e) []))
         \<or> includesStr (toLowerCase (orEmpty (toHeader e))) target))"

text \<open>
  Claim C5, as amended. A summary qualifies if and only if its lowercased subject
  contains the subject needle and one of these holds: its normalized recipient address
  list contains the normalized target; its raw recipient header text, lowercased,
  contains the normalized target as a substring; or its recipient address list is absent
  or empty and one of the pieces of the raw recipient header, split at runs of commas and
  white space, normalizes to the target.
\<close>

theorem qualifies_iff:
  "qualifies toLowerCase target needle e \<longleftrightarrow>
     specQualifies toLowerCase target needle e
     \<or> (includesStr (toLowerCase (orEmpty (subject e))) needle
        \<and> orElse (toAddresses e) [] = []
        \<and> (\<exists>h. toHeader e = Some h \<and> target \<in> set (map (normalizeGmail toLowerCase) (splitSeparators h))))"
proof (cases "toAddresses e")
  case None
  then show ?thesis
    by (cases "toHeader e") (auto simp: qualifies_def specQualifies_def toAddrs_def orElse_def Let_def)
next
  case (Some as)
  then show ?thesis
    by (cases as; cases "toHeader e")
       (auto simp: qualifies_def specQualifies_def toAddrs_def orElse_def Let_def)
qed

definition aliasOnlyInHeader :: email where
  "aliasOnlyInHeader =
     \<lparr>uid = 1, internalDateMs = None, date = None, fromHeader = None,
      toHeader = Some (js ''User+tag@gmail.com''), toAddresses = Some [],
      subject = Some (js ''Please verify''), textBody = None, htmlAsText = None,
      snippet = None, attachments = []\<rparr>"

lemmas qual_eval = js_def normalizeGmail_def latin1LowerCase_def lowerUnit_def trim_def
  isWhiteSpace_def qualifies_def specQualifies_def toAddrs_def orEmpty_def orElse_def
  isSeparator_def splitSeparators.simps Let_def

definition listedRecipient :: email where
  "listedRecipient =
     \<lparr>uid = 2, internalDateMs = None, date = None, fromHeader = None,
      toHeader = Some (js ''Jane <Jane+test@gmail.com>''), toAddresses = Some [js ''Jane+test@gmail.com''],
      subject = Some (js ''Please VERIFY''), textBody = None, htmlAsText = None,
      snippet = None, attachments = []\<rparr>"

theorem qualifies_iff_witness:
  "qualifies latin1LowerCase (js ''jane@gmail.com'') (js ''verify'') listedRecipient
   \<and> specQualifies latin1LowerCase (js ''jane@gmail.com'') (js ''verify'') listedRecipient"
proof -
  have "specQualifies latin1LowerCase (js ''jane@gmail.com'') (js ''verify'') listedRecipient"
    by (simp add: listedRecipient_def qual_eval)
  then show ?thesis
    using qualifies_iff[of latin1LowerCase "js ''jane@gmail.com''" "js ''verify''" listedRecipient] by blast
qed

text \<open>
  The claim as first stated has only the first two alternatives. A summary with an empty
  address list whose header is \<open>User+tag@gmail.com\<close> qualifies for the target
  \<open>user@gmail.com\<close>: the header piece normalizes to the target, while the lowercased header
  does not contain the target.
\<close>

theorem qualifies_beyond_address_list:
  "qualifies latin1LowerCase (normalizeGmail latin1LowerCase (js ''user@gmail.com'')) (latin1LowerCase (js ''verify'')) aliasOnlyInHeader
   \<and> \<not> specQualifies latin1LowerCase (normalizeGmail latin1LowerCase (js ''user@gmail.com'')) (latin1LowerCase (js ''verify''))
         aliasOnlyInHeader"
  by (simp add: aliasOnlyInHeader_def qual_eval)

section \<open>Properties of the selection of the latest candidate\<close>

text \<open>
  \<open>newerThan a b\<close>: \<open>a\<close> comes strictly before \<open>b\<close> in the comparator's order, that is
  \<open>a\<close> has the greater \<open>internalDateMs\<close> (absent counts as 0) or, these being equal, the
  greater \<open>date\<close> (absent counts as 0).
\<close>

definition newerThan :: "email \<Rightarrow> email \<Rightarrow> bool" where
  "newerThan a b =
     (orElse (internalDateMs a) 0 > orElse (internalDateMs b) 0
      \<or> (orElse (internalDateMs a) 0 = orElse (internalDateMs b) 0
         \<and> orElse (date a) 0 > orElse (date b) 0))"

text \<open>
  \<open>effectiveTimestamp\<close> is the effective timestamp in the words of the specification:
  \<open>internalDateMs\<close> if present and nonzero, else the parsed \<open>date\<close>, else zero.
\<close>

definition effectiveTimestamp :: "email \<Rightarrow> int" where
  "effectiveTimestamp e =
     (case internalDateMs e of
        Some p \<Rightarrow> if p \<noteq> 0 then p else orElse (date e) 0
      | None \<Rightarrow> orElse (date e) 0)"

lemma byReceived_le_0: "byReceived a b \<le> 0 \<longleftrightarrow> \<not> newerThan b a"
  by (auto simp: byReceived_def newerThan_def orElse_def Let_def split: option.splits)

lemma not_newer_trans: "\<not> newerThan c b \<Longrightarrow> \<not> newerThan b a \<Longrightarrow> \<not> newerThan c a"
  by (auto simp: newerThan_def)

lemma newerThan_asym: "newerThan a b \<Longrightarrow> \<not> newerThan b a"
  by (auto simp: newerThan_def)

lemma newerThan_irrefl: "\<not> newerThan a a"
  by (simp add: newerThan_def)

lemma hd_sortInsert:
  "hd (sortInsert cmp x ys) = (if ys = [] \<or> cmp x (hd ys) \<le> 0 then x else hd ys)"
  by (cases ys) auto

lemma hd_arraySort_Cons:
  "hd (arraySort cmp (x # xs)) =
     (if xs = [] \<or> cmp x (hd (arraySort cmp xs)) \<le> 0 then x else hd (arraySort cmp xs))"
  by (simp add: hd_sortInsert arraySort_Nil_iff)

lemma latest_index:
  "cs \<noteq> [] \<Longrightarrow>
     \<exists>i<length cs. hd (arraySort byReceived cs) = cs ! i
        \<and> (\<forall>j<length cs. \<not> newerThan (cs ! j) (cs ! i))
        \<and> (\<forall>j<i. newerThan (cs ! i) (cs ! j))"
proof (induction cs)
  case Nil
  then show ?case by simp
next
  case (Cons x xs)
  show ?case
  proof (cases "xs = []")
    case True
    then show ?thesis by (simp add: newerThan_irrefl)
  next
    case False
    with Cons.IH obtain i where i: "i < length xs" "hd (arraySort byReceived xs) = xs ! i"
      "\<forall>j<length xs. \<not> newerThan (xs ! j) (xs ! i)" "\<forall>j<i. newerThan (xs ! i) (xs ! j)"
      by blast
    show ?thesis
    proof (cases "newerThan (xs ! i) x")
      case True
      then have h: "hd (arraySort byReceived (x # xs)) = (x # xs) ! Suc i"
        using False i(2) by (simp add: hd_arraySort_Cons byReceived_le_0 del: arraySort.simps)
      have a: "\<forall>j<length (x # xs). \<not> newerThan ((x # xs) ! j) ((x # xs) ! Suc i)"
      proof (intro allI impI)
        fix j assume "j < length (x # xs)"
        then show "\<not> newerThan ((x # xs) ! j) ((x # xs) ! Suc i)"
          using i(3) True newerThan_asym by (cases j) auto
      qed
      have b: "\<forall>j<Suc i. newerThan ((x # xs) ! Suc i) ((x # xs) ! j)"
      proof (intro allI impI)
        fix j assume "j < Suc i"
        then show "newerThan ((x # xs) ! Suc i) ((x # xs) ! j)"
          using i(4) True by (cases j) auto
      qed
      from h a b i(1) show ?thesis
        by (intro exI[of _ "Suc i"]) simp
    next
      case nn: False
      then have h: "hd (arraySort byReceived (x # xs)) = (x # xs) ! 0"
        using False i(2) by (simp add: hd_arraySort_Cons byReceived_le_0 del: arraySort.simps)
      have a: "\<forall>j<length (x # xs). \<not> newerThan ((x # xs) ! j) ((x # xs) ! 0)"
      proof (intro allI impI)
        fix j assume "j < length (x # xs)"
        then show "\<not> newerThan ((x # xs) ! j) ((x # xs) ! 0)"
          using i(3) nn not_newer_trans newerThan_irrefl by (cases j) auto
      qed
      from h a show ?thesis
        by (intro exI[of _ 0]) simp
    qed
  qed
qed

lemma effective_when_no_internal:
  assumes "internalDateMs a = None \<or> internalDateMs a = Some 0"
    and "internalDateMs b = None \<or> internalDateMs b = Some 0"
  shows "newerThan a b \<longleftrightarrow> effectiveTimestamp b < effectiveTimestamp a"
  using assms by (auto simp: newerThan_def effectiveTimestamp_def orElse_def)

text \<open>
  Claim C1, as amended. For every non-empty list of qualifying summaries the Engine
  selects the summary that is greatest in the comparator's order: the greatest
  \<open>internalDateMs\<close> (absent counts as zero) and, among equal \<open>internalDateMs\<close>, the
  greatest parsed \<open>date\<close> (absent counts as zero). Among several greatest summaries the one
  appearing earliest in the input list is selected. When no summary of the list carries
  a nonzero \<open>internalDateMs\<close>, the selected summary is the one with the greatest effective
  timestamp, the earliest of them in the list.
\<close>

theorem latest_is_first_greatest:
  assumes "cs \<noteq> []"
  shows "\<exists>i<length cs. hd (arraySort byReceived cs) = cs ! i
           \<and> (\<forall>j<length cs. \<not> newerThan (cs ! j) (cs ! i))
           \<and> (\<forall>j<i. newerThan (cs ! i) (cs ! j))
           \<and> ((\<forall>c\<in>set cs. internalDateMs c = None \<or> internalDateMs c = Some 0) \<longrightarrow>
                (\<forall>j<length cs. effectiveTimestamp (cs ! j) \<le> effectiveTimestamp (cs ! i))
                \<and> (\<forall>j<i. effectiveTimestamp (cs ! j) < effectiveTimestamp (cs ! i)))"
proof -
  from latest_index[OF assms] obtain i where i: "i < length cs"
      "hd (arraySort byReceived cs) = cs ! i"
      "\<forall>j<length cs. \<not> newerThan (cs ! j) (cs ! i)" "\<forall>j<i. newerThan (cs ! i) (cs ! j)"
    by blast
  have "(\<forall>j<length cs. effectiveTimestamp (cs ! j) \<le> effectiveTimestamp (cs ! i))
        \<and> (\<forall>j<i. effectiveTimestamp (cs ! j) < effectiveTimestamp (cs ! i))"
    if none: "\<forall>c\<in>set cs. internalDateMs c = None \<or> internalDateMs c = Some 0"
  proof -
    have eq: "newerThan (cs ! a) (cs ! b) \<longleftrightarrow> effectiveTimestamp (cs ! b) < effectiveTimestamp (cs ! a)"
      if "a < length cs" "b < length cs" for a b
      using that none by (intro effective_when_no_internal) (meson nth_mem)+
    have "\<forall>j<length cs. effectiveTimestamp (cs ! j) \<le> effectiveTimestamp (cs ! i)"
      using i(1,3) eq by (meson not_le)
    moreover have "\<forall>j<i. effectiveTimestamp (cs ! j) < effectiveTimestamp (cs ! i)"
      using i(1,4) eq by (meson less_trans)
    ultimately show ?thesis by blast
  qed
  with i show ?thesis by blast
qed

definition mailAt :: "nat \<Rightarrow> int option \<Rightarrow> int option \<Rightarrow> email" where
  "mailAt n internal parsed =
     \<lparr>uid = n, internalDateMs = internal, date = parsed, fromHeader = None, toHeader = None,
      toAddresses = None, subject = None, textBody = None, htmlAsText = None, snippet = None,
      attachments = []\<rparr>"

theorem latest_is_first_greatest_witness:
  "hd (arraySort byReceived
         [mailAt 1 None (Some 1000), mailAt 2 None (Some 2000), mailAt 3 None (Some 2000)])
     = mailAt 2 None (Some 2000)
   \<and> (\<exists>i<3. hd (arraySort byReceived
         [mailAt 1 None (Some 1000), mailAt 2 None (Some 2000), mailAt 3 None (Some 2000)])
          = [mailAt 1 None (Some 1000), mailAt 2 None (Some 2000), mailAt 3 None (Some 2000)] ! i)"
proof -
  let ?cs = "[mailAt 1 None (Some 1000), mailAt 2 None (Some 2000), mailAt 3 None (Some 2000)]"
  have ne: "?cs \<noteq> []" by simp
  have "hd (arraySort byReceived ?cs) = mailAt 2 None (Some 2000)"
    by (simp add: byReceived_def mailAt_def)
  moreover have "\<exists>i<3. hd (arraySort byReceived ?cs) = ?cs ! i"
  proof -
    from latest_is_first_greatest[OF ne] obtain i
      where "i < length ?cs" and "hd (arraySort byReceived ?cs) = ?cs ! i"
      by blast
    moreover from this(1) have "i < 3" by simp
    ultimately show ?thesis by blast
  qed
  ultimately show ?thesis by blast
qed

text \<open>
  The claim as first stated orders the summaries by effective timestamp. The comparator
  orders them by \<open>internalDateMs\<close> first: a summary with an \<open>internalDateMs\<close> is selected
  over a later one that has only a \<open>date\<close>, and of two summaries with the same nonzero
  \<open>internalDateMs\<close>, hence the same effective timestamp, the one with the later \<open>date\<close> is
  selected although it comes second in the list.
\<close>

theorem latest_not_by_effective_timestamp:
  "hd (arraySort byReceived
         [mailAt 1 (Some 1700000000000) None, mailAt 2 None (Some 1700000600000)])
     = mailAt 1 (Some 1700000000000) None
   \<and> effectiveTimestamp (mailAt 1 (Some 1700000000000) None)
       < effectiveTimestamp (mailAt 2 None (Some 1700000600000))
   \<and> hd (arraySort byReceived
         [mailAt 3 (Some 1700000000000) (Some 100), mailAt 4 (Some 1700000000000) (Some 200)])
     = mailAt 4 (Some 1700000000000) (Some 200)
   \<and> effectiveTimestamp (mailAt 3 (Some 1700000000000) (Some 100))
       = effectiveTimestamp (mailAt 4 (Some 1700000000000) (Some 200))"
  by (simp add: byReceived_def mailAt_def effectiveTimestamp_def orElse_def)

section \<open>Properties of the poll loop\<close>

lemma fetchEmails_no_Timeout: "fst (fetchEmails toLowerCase srv now f) \<noteq> Inl (Timeout m)"
  by (auto simp: fetchEmails_def Let_def split: option.splits prod.splits)

lemma pollLoop_deadline_passed:
  "\<not> clock w < deadline lc \<Longrightarrow> pollLoop toLowerCase rq lc cs w = Some (Rejected (timedOut rq), w)"
  by (cases cs) simp_all

lemma pollLoop_Resolved:
  "pollLoop toLowerCase rq lc cs w = Some (Resolved u, w') \<Longrightarrow>
     \<exists>c\<in>set cs. \<exists>now emails calls.
        fetchEmails toLowerCase (server c) now (filterSpec rq) = (Inr emails, calls)
        \<and> pollCycle toLowerCase (targetRecipient lc) (subjectNeedle lc) (urlNeedle lc) emails = Some u"
proof (induction cs arbitrary: w)
  case Nil
  then show ?case by (simp split: if_splits)
next
  case (Cons c cs)
  show ?case
  proof (cases "clock w < deadline lc")
    case False
    with Cons.prems show ?thesis by simp
  next
    case True
    obtain fetched calls where fe: "fetchEmails toLowerCase (server c) (clock w) (filterSpec rq) = (fetched, calls)"
      by (cases "fetchEmails toLowerCase (server c) (clock w) (filterSpec rq)")
    show ?thesis
    proof (cases fetched)
      case (Inl err)
      with Cons.prems True fe show ?thesis by (simp add: Let_def)
    next
      case (Inr emails)
      show ?thesis
      proof (cases "pollCycle toLowerCase (targetRecipient lc) (subjectNeedle lc) (urlNeedle lc) emails")
        case None
        with Cons.prems True fe Inr obtain w1 where "pollLoop toLowerCase rq lc cs w1 = Some (Resolved u, w')"
          by (simp add: Let_def)
        from Cons.IH[OF this] show ?thesis by auto
      next
        case (Some match)
        with Cons.prems True fe Inr have "match = u" by (simp add: Let_def)
        with Some fe Inr show ?thesis by auto
      qed
    qed
  qed
qed

lemma pollLoop_Timeout:
  "pollLoop toLowerCase rq lc cs w = Some (Rejected (Timeout m), w') \<Longrightarrow>
     Timeout m = timedOut rq \<and> deadline lc \<le> clock w'"
proof (induction cs arbitrary: w)
  case Nil
  then show ?case by (simp split: if_splits)
next
  case (Cons c cs)
  show ?case
  proof (cases "clock w < deadline lc")
    case False
    with Cons.prems show ?thesis by simp
  next
    case True
    obtain fetched calls where fe: "fetchEmails toLowerCase (server c) (clock w) (filterSpec rq) = (fetched, calls)"
      by (cases "fetchEmails toLowerCase (server c) (clock w) (filterSpec rq)")
    show ?thesis
    proof (cases fetched)
      case (Inl err)
      with fe have "err \<noteq> Timeout m" using fetchEmails_no_Timeout[of toLowerCase "server c" "clock w" "filterSpec rq" m]
        by auto
      with Cons.prems True fe Inl show ?thesis by (simp add: Let_def)
    next
      case (Inr emails)
      show ?thesis
      proof (cases "pollCycle toLowerCase (targetRecipient lc) (subjectNeedle lc) (urlNeedle lc) emails")
        case None
        with Cons.prems True fe Inr obtain w1 where "pollLoop toLowerCase rq lc cs w1 = Some (Rejected (Timeout m), w')"
          by (simp add: Let_def)
        from Cons.IH[OF this] show ?thesis .
      next
        case (Some match)
        with Cons.prems True fe Inr show ?thesis by (simp add: Let_def)
      qed
    qed
  qed
qed

lemma pollLoop_fetches:
  "pollLoop toLowerCase rq lc cs w = Some (out, w') \<Longrightarrow>
     \<exists>n. fetches w' = fetches w @ replicate n (filterSpec rq) \<and> length (sleeps w') \<le> length (sleeps w) + n"
proof (induction cs arbitrary: w)
  case Nil
  then show ?case by (auto split: if_splits)
next
  case (Cons c cs)
  show ?case
  proof (cases "clock w < deadline lc")
    case False
    with Cons.prems show ?thesis by auto
  next
    case True
    obtain fetched calls where fe: "fetchEmails toLowerCase (server c) (clock w) (filterSpec rq) = (fetched, calls)"
      by (cases "fetchEmails toLowerCase (server c) (clock w) (filterSpec rq)")
    show ?thesis
    proof (cases fetched)
      case (Inl err)
      with Cons.prems True fe have "fetches w' = fetches w @ replicate 1 (filterSpec rq)" "sleeps w' = sleeps w"
        by (auto simp: Let_def)
      then show ?thesis by (intro exI[of _ 1]) simp
    next
      case (Inr emails)
      show ?thesis
      proof (cases "pollCycle toLowerCase (targetRecipient lc) (subjectNeedle lc) (urlNeedle lc) emails")
        case None
        define w1 where "w1 = w\<lparr>clock := clock w + fetchMs c, fetches := fetches w @ [filterSpec rq],
            imapCalls := imapCalls w @ calls\<rparr>"
        define w2 where "w2 = w1\<lparr>clock := clock w1 + sleepMs c, sleeps := sleeps w1 @ [pollIntervalMs rq]\<rparr>"
        from Cons.prems True fe Inr None have "pollLoop toLowerCase rq lc cs w2 = Some (out, w')"
          by (simp add: Let_def w1_def w2_def)
        from Cons.IH[OF this] obtain n where
          n: "fetches w' = fetches w2 @ replicate n (filterSpec rq)" "length (sleeps w') \<le> length (sleeps w2) + n"
          by blast
        have "fetches w2 = fetches w @ [filterSpec rq]" "length (sleeps w2) = length (sleeps w) + 1"
          by (simp_all add: w1_def w2_def)
        with n have "fetches w' = fetches w @ replicate (Suc n) (filterSpec rq)"
          "length (sleeps w') \<le> length (sleeps w) + Suc n"
          by (simp_all add: replicate_app_Cons_same)
        then show ?thesis by blast
      next
        case (Some match)
        with Cons.prems True fe Inr have "fetches w' = fetches w @ replicate 1 (filterSpec rq)" "sleeps w' = sleeps w"
          by (auto simp: Let_def)
        then show ?thesis by (intro exI[of _ 1]) simp
      qed
    qed
  qed
qed

lemma includesStr_middle: "includesStr (a @ n @ b) n"
  by (simp add: includesStr_sublist)

lemma pollCycle_find:
  "pollCycle toLowerCase t sn un emails =
     (if filter (qualifies toLowerCase t sn) emails = [] then None
      else find (\<lambda>u. includesStr (toLowerCase u) un)
             (extractLinks (pickBody (hd (arraySort byReceived (filter (qualifies toLowerCase t sn) emails))))))"
proof -
  have "(case find P (extractLinks b) of None \<Rightarrow> None
         | Some match \<Rightarrow> if match \<noteq> [] then Some match else None) = find P (extractLinks b)"
    for P b
  proof (cases "find P (extractLinks b)")
    case None
    then show ?thesis by simp
  next
    case (Some match)
    then have "match \<in> set (extractLinks b)" by (auto simp: find_Some_iff)
    then have "match \<noteq> []" by (rule extractLinks_nonempty)
    with Some show ?thesis by simp
  qed
  then show ?thesis by (simp add: pollCycle_def Let_def)
qed

lemma pickBody_order:
  "pickBody e =
     (case htmlAsText e of
        Some h \<Rightarrow> if h \<noteq> [] then h else orEmpty (textBody e)
      | None \<Rightarrow> orEmpty (textBody e))"
  by (auto simp: pickBody_def orEmpty_def split: option.splits)

text \<open>
  Claim C4. In a poll cycle with at least one qualifying summary, the Engine takes the
  body of the selected summary in the fixed order (the HTML rendered as text if present
  and not empty, else the plain text, else the empty string), extracts the URLs of that
  body and yields the first of them whose lowercased form contains the lowercased URL
  keyword as a substring; with no qualifying summary the cycle yields nothing. The call
  resolves with that URL as soon as a cycle yields one, and a call that resolves with a
  URL got it from such a cycle. The URL \<open>https://EXAMPLE.com/verify?x=1\<close> matches the
  keyword \<open>verify\<close>.
\<close>

theorem success_is_first_matching_url:
  "pollCycle toLowerCase t sn (toLowerCase k) emails =
     (if filter (qualifies toLowerCase t sn) emails = [] then None
      else find (\<lambda>u. includesStr (toLowerCase u) (toLowerCase k))
             (extractLinks (pickBody (hd (arraySort byReceived (filter (qualifies toLowerCase t sn) emails))))))
   \<and> pickBody e =
       (case htmlAsText e of
          Some h \<Rightarrow> if h \<noteq> [] then h else orEmpty (textBody e)
        | None \<Rightarrow> orEmpty (textBody e))
   \<and> (clock w < deadline lc
        \<and> fetchEmails toLowerCase (server c) (clock w) (filterSpec rq) = (Inr emails, calls)
        \<and> pollCycle toLowerCase (targetRecipient lc) (subjectNeedle lc) (urlNeedle lc) emails = Some u
       \<longrightarrow> (\<exists>w'. pollLoop toLowerCase rq lc (c # cs) w = Some (Resolved u, w')))
   \<and> (waitAndExtractUrlByRecipient toLowerCase r s k ts pi opts cycles w = Some (Resolved u, w')
       \<longrightarrow> (\<exists>c\<in>set cycles. \<exists>now emails calls.
              fetchEmails toLowerCase (server c) now (filterSpec (withDefaults r s k ts pi opts))
                = (Inr emails, calls)
              \<and> pollCycle toLowerCase (normalizeGmail toLowerCase r) (toLowerCase s) (toLowerCase k) emails = Some u))
   \<and> (lowersAscii toLowerCase
       \<longrightarrow> includesStr (toLowerCase (js ''https://EXAMPLE.com/verify?x=1''))
             (toLowerCase (js ''verify'')))"
proof -
  have a: "clock w < deadline lc
        \<and> fetchEmails toLowerCase (server c) (clock w) (filterSpec rq) = (Inr emails, calls)
        \<and> pollCycle toLowerCase (targetRecipient lc) (subjectNeedle lc) (urlNeedle lc) emails = Some u
       \<longrightarrow> (\<exists>w'. pollLoop toLowerCase rq lc (c # cs) w = Some (Resolved u, w'))"
    by (simp add: Let_def)
  have b: "waitAndExtractUrlByRecipient toLowerCase r s k ts pi opts cycles w = Some (Resolved u, w')
       \<longrightarrow> (\<exists>c\<in>set cycles. \<exists>now emails calls.
              fetchEmails toLowerCase (server c) now (filterSpec (withDefaults r s k ts pi opts))
                = (Inr emails, calls)
              \<and> pollCycle toLowerCase (normalizeGmail toLowerCase r) (toLowerCase s) (toLowerCase k) emails = Some u)"
  proof
    assume "waitAndExtractUrlByRecipient toLowerCase r s k ts pi opts cycles w = Some (Resolved u, w')"
    then have "pollLoop toLowerCase (withDefaults r s k ts pi opts)
        \<lparr>deadline = clock w + timeoutSeconds (withDefaults r s k ts pi opts) * 1000,
          targetRecipient = normalizeGmail toLowerCase r, subjectNeedle = toLowerCase s,
          urlNeedle = toLowerCase k\<rparr> cycles w = Some (Resolved u, w')"
      by (simp add: waitAndExtractUrlByRecipient_def Let_def)
    from pollLoop_Resolved[OF this] show "\<exists>c\<in>set cycles. \<exists>now emails calls.
              fetchEmails toLowerCase (server c) now (filterSpec (withDefaults r s k ts pi opts))
                = (Inr emails, calls)
              \<and> pollCycle toLowerCase (normalizeGmail toLowerCase r) (toLowerCase s) (toLowerCase k) emails = Some u"
      by simp
  qed
  have c: "lowersAscii toLowerCase
       \<longrightarrow> includesStr (toLowerCase (js ''https://EXAMPLE.com/verify?x=1''))
             (toLowerCase (js ''verify''))"
  proof
    assume asc: "lowersAscii toLowerCase"
    have "toLowerCase (js ''https://EXAMPLE.com/verify?x=1'')
            = latin1LowerCase (js ''https://EXAMPLE.com/verify?x=1'')"
      by (rule lowersAscii_eq[OF asc]) (simp add: js_def)
    moreover have "toLowerCase (js ''verify'') = latin1LowerCase (js ''verify'')"
      by (rule lowersAscii_eq[OF asc]) (simp add: js_def)
    moreover have "includesStr (latin1LowerCase (js ''https://EXAMPLE.com/verify?x=1''))
                     (latin1LowerCase (js ''verify''))"
      by (simp add: js_def latin1LowerCase_def lowerUnit_def)
    ultimately show "includesStr (toLowerCase (js ''https://EXAMPLE.com/verify?x=1''))
             (toLowerCase (js ''verify''))"
      by simp
  qed
  show ?thesis
    using pollCycle_find[of toLowerCase t sn "toLowerCase k" emails] pickBody_order[of e] a b c by blast
qed

text \<open>
  Two mailboxes for the concrete runs below: an inbox holding one verification mail, and
  a server whose searches find nothing. \<open>startWorld\<close> is the world before a call.
\<close>

definition verifyMail :: parsedMail where
  "verifyMail =
     \<lparr>parsedFrom = Some (js ''Accounts <noreply@example.com>''),
      parsedSubject = Some (js ''Please verify''),
      parsedText = Some (js ''confirm here: https://example.com/verify/abc123.''),
      parsedHtmlAsText = None,
      parsedTo = Some (js ''Jane <jane@gmail.com>''),
      parsedToValue = Some [Some (js ''jane@gmail.com'')],
      parsedDate = Some 1700000000000,
      parsedAttachments = None\<rparr>"

definition inboxWithVerifyMail :: imap where
  "inboxWithVerifyMail =
     \<lparr>connectError = None,
      boxes = [js ''INBOX''],
      searchResult = (\<lambda>q. Some [7]),
      downloadResult = (\<lambda>u. Inr (Some [])),
      parseResult = (\<lambda>raw. Inr verifyMail)\<rparr>"

definition emptyArchive :: imap where
  "emptyArchive =
     \<lparr>connectError = None,
      boxes = [js ''INBOX'', js ''Archive''],
      searchResult = (\<lambda>q. Some []),
      downloadResult = (\<lambda>u. Inr None),
      parseResult = (\<lambda>raw. Inl [])\<rparr>"

definition startWorld :: world where
  "startWorld = \<lparr>clock = 1700000000000, fetches = [], imapCalls = [], sleeps = []\<rparr>"

lemmas engine_eval =
  waitAndExtractUrlByRecipient_def withDefaults_def fetchEmails_def searchWithRetries_def
  processMessage_def asArray_def sliceTo_def passes_def timedOut_def
  js_def matchAt_def matchesIgnoreCase_def canonUnit_def isUrlChar_def isWhiteSpace_def
  isWordChar_def isTrailChar_def stripTrailing_def urlsAdd_def extractLinks_def Let_def
  normalizeGmail_def latin1LowerCase_def lowerUnit_def trim_def qualifies_def toAddrs_def orEmpty_def
  byReceived_def pickBody_def pollCycle_def orElse_def isSeparator_def splitSeparators.simps

lemma run_success:
  "map_option fst
     (waitAndExtractUrlByRecipient latin1LowerCase (js ''Jane+test@gmail.com'') (js ''verify'') (js ''verify'')
        None None None [\<lparr>server = inboxWithVerifyMail, fetchMs = 800, sleepMs = 3000\<rparr>] startWorld)
   = Some (Resolved (js ''https://example.com/verify/abc123''))"
  by (simp add: inboxWithVerifyMail_def verifyMail_def startWorld_def engine_eval)

lemma run_timeout:
  "map_option (\<lambda>(out, w'). (out, clock w' - clock startWorld, fetches w' = [], sleeps w'))
     (waitAndExtractUrlByRecipient latin1LowerCase (js ''jane@gmail.com'') (js ''verify'') (js ''token'')
        (Some 1) (Some 500)
        (Some \<lparr>optSinceMs = None, optUnreadOnly = None, optLimit = None,
               optMailbox = Some (js ''Archive'')\<rparr>)
        [\<lparr>server = emptyArchive, fetchMs = 5000, sleepMs = 3000\<rparr>] startWorld)
   = Some (Rejected (Timeout (timeoutMessage 1 (js ''token'') (js ''jane@gmail.com'') (js ''verify''))),
           8000, False, [500])"
  by (simp add: emptyArchive_def startWorld_def engine_eval)

lemma msg_no_mailbox:
  "\<not> includesStr (timeoutMessage 1 (js ''token'') (js ''jane@gmail.com'') (js ''verify''))
        (js ''Archive'')"
  by (simp add: timeoutMessage_def showInt_def showNat.simps js_def)

theorem success_is_first_matching_url_witness:
  "(\<exists>c\<in>set [\<lparr>server = inboxWithVerifyMail, fetchMs = 800, sleepMs = 3000\<rparr>].
      \<exists>now emails calls.
        fetchEmails latin1LowerCase (server c) now
          (filterSpec (withDefaults (js ''Jane+test@gmail.com'') (js ''verify'') (js ''verify'')
                         None None None)) = (Inr emails, calls)
        \<and> pollCycle latin1LowerCase (normalizeGmail latin1LowerCase (js ''Jane+test@gmail.com''))
             (latin1LowerCase (js ''verify'')) (latin1LowerCase (js ''verify'')) emails
           = Some (js ''https://example.com/verify/abc123''))
   \<and> map_option fst
        (waitAndExtractUrlByRecipient latin1LowerCase (js ''Jane+test@gmail.com'') (js ''verify'') (js ''verify'')
           None None None [\<lparr>server = inboxWithVerifyMail, fetchMs = 800, sleepMs = 3000\<rparr>]
           startWorld)
      = Some (Resolved (js ''https://example.com/verify/abc123''))
   \<and> includesStr (latin1LowerCase (js ''https://EXAMPLE.com/verify?x=1''))
        (latin1LowerCase (js ''verify''))"
proof -
  from run_success obtain w' where
    "waitAndExtractUrlByRecipient latin1LowerCase (js ''Jane+test@gmail.com'') (js ''verify'') (js ''verify'')
        None None None [\<lparr>server = inboxWithVerifyMail, fetchMs = 800, sleepMs = 3000\<rparr>] startWorld
     = Some (Resolved (js ''https://example.com/verify/abc123''), w')"
    by auto
  with success_is_first_matching_url[where toLowerCase=latin1LowerCase and k="js ''verify''" and r="js ''Jane+test@gmail.com''"
      and s="js ''verify''" and ts=None and pi=None and opts=None and w=startWorld
      and cycles="[\<lparr>server = inboxWithVerifyMail, fetchMs = 800, sleepMs = 3000\<rparr>]"
      and u="js ''https://example.com/verify/abc123''" and w'=w']
  show ?thesis using run_success lowersAscii_latin1 by blast
qed

lemma pollLoop_returns:
  assumes "\<forall>c\<in>set cs. 0 \<le> fetchMs c \<and> 0 \<le> sleepMs c \<and> 1 \<le> fetchMs c + sleepMs c"
    and "deadline lc - clock w \<le> int (length cs)"
  shows "pollLoop toLowerCase rq lc cs w \<noteq> None"
  using assms
proof (induction cs arbitrary: w)
  case Nil
  then show ?case by simp
next
  case (Cons c cs)
  show ?case
  proof (cases "clock w < deadline lc")
    case False
    then show ?thesis by simp
  next
    case True
    obtain fetched calls where fe: "fetchEmails toLowerCase (server c) (clock w) (filterSpec rq) = (fetched, calls)"
      by (cases "fetchEmails toLowerCase (server c) (clock w) (filterSpec rq)")
    show ?thesis
    proof (cases fetched)
      case (Inl err)
      with True fe show ?thesis by (simp add: Let_def)
    next
      case (Inr emails)
      show ?thesis
      proof (cases "pollCycle toLowerCase (targetRecipient lc) (subjectNeedle lc) (urlNeedle lc) emails")
        case (Some match)
        with True fe Inr show ?thesis by (simp add: Let_def)
      next
        case None
        define w1 where "w1 = w\<lparr>clock := clock w + fetchMs c,
            fetches := fetches w @ [filterSpec rq], imapCalls := imapCalls w @ calls\<rparr>"
        define w2 where "w2 = w1\<lparr>clock := clock w1 + sleepMs c,
            sleeps := sleeps w1 @ [pollIntervalMs rq]\<rparr>"
        have step: "pollLoop toLowerCase rq lc (c # cs) w = pollLoop toLowerCase rq lc cs w2"
          using True fe Inr None by (simp add: Let_def w1_def w2_def)
        have "1 \<le> fetchMs c + sleepMs c" using Cons.prems(1) by simp
        then have "deadline lc - clock w2 \<le> int (length cs)"
          using Cons.prems(2) by (simp add: w1_def w2_def)
        moreover have "\<forall>c\<in>set cs. 0 \<le> fetchMs c \<and> 0 \<le> sleepMs c \<and> 1 \<le> fetchMs c + sleepMs c"
          using Cons.prems(1) by simp
        ultimately have "pollLoop toLowerCase rq lc cs w2 \<noteq> None" by (rule Cons.IH[rotated])
        with step show ?thesis by simp
      qed
    qed
  qed
qed

text \<open>
  Claim C3, as amended. When the deadline is exceeded with no success, the Engine fails
  with a Timeout error whose message includes the recipient, the subject keyword, the
  URL keyword and the configured timeout in seconds. The message carries neither the
  mailbox nor the time that has really elapsed, which is at least the configured timeout.
  (By \<open>pollLoop_returns\<close> the call does return once every poll cycle takes at least a
  millisecond and the environment is followed for long enough.)
\<close>

theorem timeout_carries_context:
  "(waitAndExtractUrlByRecipient toLowerCase r s k ts pi opts cycles w = Some (Rejected (Timeout msg), w')
      \<longrightarrow> msg = timeoutMessage (orElse ts 60) k r s
          \<and> clock w + orElse ts 60 * 1000 \<le> clock w')
   \<and> (deadline lc \<le> clock w0
      \<longrightarrow> pollLoop toLowerCase rq lc cs w0
            = Some (Rejected (Timeout (timeoutMessage (timeoutSeconds rq) (urlKeyword rq)
                                         (recipientEmail rq) (subjectKeyword rq))), w0))
   \<and> includesStr (timeoutMessage t k r s) r
   \<and> includesStr (timeoutMessage t k r s) s
   \<and> includesStr (timeoutMessage t k r s) k
   \<and> includesStr (timeoutMessage t k r s) (js ''after '' @ showInt t @ js ''s:'')"
proof -
  let ?rq = "withDefaults r s k ts pi opts"
  have a: "msg = timeoutMessage (orElse ts 60) k r s \<and> clock w + orElse ts 60 * 1000 \<le> clock w'"
    if run: "waitAndExtractUrlByRecipient toLowerCase r s k ts pi opts cycles w
               = Some (Rejected (Timeout msg), w')"
  proof -
    from run have "pollLoop toLowerCase ?rq
        \<lparr>deadline = clock w + timeoutSeconds ?rq * 1000,
          targetRecipient = normalizeGmail toLowerCase r, subjectNeedle = toLowerCase s,
          urlNeedle = toLowerCase k\<rparr> cycles w = Some (Rejected (Timeout msg), w')"
      by (simp add: waitAndExtractUrlByRecipient_def Let_def)
    from pollLoop_Timeout[OF this] show ?thesis
      by (simp add: timedOut_def withDefaults_def Let_def)
  qed
  have b: "pollLoop toLowerCase rq lc cs w0
            = Some (Rejected (Timeout (timeoutMessage (timeoutSeconds rq) (urlKeyword rq)
                                         (recipientEmail rq) (subjectKeyword rq))), w0)"
    if "deadline lc \<le> clock w0"
    using that pollLoop_deadline_passed[of w0 lc toLowerCase rq cs] by (simp add: timedOut_def)
  have c1: "includesStr (timeoutMessage t k r s) r"
    unfolding timeoutMessage_def
    using includesStr_middle[of "js ''Timed out after '' @ showInt t @
        js ''s: no URL containing '' @ [34] @ k @ [34] @ js '' found for '' @ [34]" r
        "[34] @ js '' with subject containing '' @ [34] @ s @ [34] @ js ''.''"]
    by simp
  have c2: "includesStr (timeoutMessage t k r s) s"
    unfolding timeoutMessage_def
    using includesStr_middle[of "js ''Timed out after '' @ showInt t @
        js ''s: no URL containing '' @ [34] @ k @ [34] @ js '' found for '' @ [34] @ r @ [34] @
        js '' with subject containing '' @ [34]" s "[34] @ js ''.''"]
    by simp
  have c3: "includesStr (timeoutMessage t k r s) k"
    unfolding timeoutMessage_def
    using includesStr_middle[of "js ''Timed out after '' @ showInt t @
        js ''s: no URL containing '' @ [34]" k
        "[34] @ js '' found for '' @ [34] @ r @ [34] @
        js '' with subject containing '' @ [34] @ s @ [34] @ js ''.''"]
    by simp
  have c4: "includesStr (timeoutMessage t k r s) (js ''after '' @ showInt t @ js ''s:'')"
    unfolding timeoutMessage_def
    using includesStr_middle[of "js ''Timed out ''" "js ''after '' @ showInt t @ js ''s:''"
        "js '' no URL containing '' @ [34] @ k @ [34] @ js '' found for '' @ [34] @ r @ [34] @
        js '' with subject containing '' @ [34] @ s @ [34] @ js ''.''"]
    by (simp add: js_def)
  from a b c1 c2 c3 c4 show ?thesis by blast
qed

theorem timeout_carries_context_witness:
  "includesStr (timeoutMessage 1 (js ''token'') (js ''jane@gmail.com'') (js ''verify''))
     (js ''jane@gmail.com'')
   \<and> includesStr (timeoutMessage 1 (js ''token'') (js ''jane@gmail.com'') (js ''verify''))
     (js ''after 1s:'')
   \<and> map_option fst
        (waitAndExtractUrlByRecipient latin1LowerCase (js ''jane@gmail.com'') (js ''verify'') (js ''token'')
           (Some 1) (Some 500)
           (Some \<lparr>optSinceMs = None, optUnreadOnly = None, optLimit = None,
                  optMailbox = Some (js ''Archive'')\<rparr>)
           [\<lparr>server = emptyArchive, fetchMs = 5000, sleepMs = 3000\<rparr>] startWorld)
      = Some (Rejected (Timeout (timeoutMessage 1 (js ''token'') (js ''jane@gmail.com'')
                (js ''verify''))))
   \<and> pollLoop latin1LowerCase (withDefaults (js ''jane@gmail.com'') (js ''verify'') (js ''token'') (Some 1)
                 (Some 500) None)
        \<lparr>deadline = 1700000000000, targetRecipient = [], subjectNeedle = [],
          urlNeedle = []\<rparr> [] startWorld \<noteq> None"
proof -
  let ?run = "waitAndExtractUrlByRecipient latin1LowerCase (js ''jane@gmail.com'') (js ''verify'') (js ''token'')
           (Some 1) (Some 500)
           (Some \<lparr>optSinceMs = None, optUnreadOnly = None, optLimit = None,
                  optMailbox = Some (js ''Archive'')\<rparr>)
           [\<lparr>server = emptyArchive, fetchMs = 5000, sleepMs = 3000\<rparr>] startWorld"
  let ?msg = "timeoutMessage 1 (js ''token'') (js ''jane@gmail.com'') (js ''verify'')"
  let ?lc = "\<lparr>deadline = 1700000000000, targetRecipient = [], subjectNeedle = [],
                   urlNeedle = []\<rparr>"
  let ?rq = "withDefaults (js ''jane@gmail.com'') (js ''verify'') (js ''token'') (Some 1)
                 (Some 500) None"
  from run_timeout obtain w' where r: "?run = Some (Rejected (Timeout ?msg), w')"
    by (cases ?run) auto
  note t = timeout_carries_context[where toLowerCase=latin1LowerCase and t=1 and k="js ''token''" and r="js ''jane@gmail.com''"
      and s="js ''verify''" and lc="?lc" and ?w0.0=startWorld and rq="?rq" and cs="[]"]
  from t have "includesStr ?msg (js ''jane@gmail.com'')"
    and "includesStr ?msg (js ''after '' @ showInt 1 @ js ''s:'')"
    by blast+
  moreover have "js ''after '' @ showInt 1 @ js ''s:'' = js ''after 1s:''"
    by (simp add: showInt_def showNat.simps js_def)
  moreover have "deadline ?lc \<le> clock startWorld" by (simp add: startWorld_def)
  with t have "pollLoop latin1LowerCase ?rq ?lc [] startWorld \<noteq> None" by simp
  ultimately show ?thesis using r by simp
qed

text \<open>
  The claim as first stated has the mailbox and the elapsed time in the diagnostic
  context. A call on the mailbox \<open>Archive\<close> with a timeout of 1 second, whose only poll
  cycle takes 5 seconds for the query and 3 seconds for the wait, fails 8000 ms after its
  start with a message that says \<open>after 1s\<close> and does not contain \<open>Archive\<close>.
\<close>

theorem timeout_message_lacks_mailbox:
  "map_option (\<lambda>(out, w'). (out, clock w' - clock startWorld))
     (waitAndExtractUrlByRecipient latin1LowerCase (js ''jane@gmail.com'') (js ''verify'') (js ''token'')
        (Some 1) (Some 500)
        (Some \<lparr>optSinceMs = None, optUnreadOnly = None, optLimit = None,
               optMailbox = Some (js ''Archive'')\<rparr>)
        [\<lparr>server = emptyArchive, fetchMs = 5000, sleepMs = 3000\<rparr>] startWorld)
     = Some (Rejected (Timeout (timeoutMessage 1 (js ''token'') (js ''jane@gmail.com'')
                (js ''verify''))), 8000)
   \<and> \<not> includesStr (timeoutMessage 1 (js ''token'') (js ''jane@gmail.com'') (js ''verify''))
         (js ''Archive'')
   \<and> includesStr (timeoutMessage 1 (js ''token'') (js ''jane@gmail.com'') (js ''verify''))
         (js ''after 1s:'')"
proof -
  have "includesStr (timeoutMessage 1 (js ''token'') (js ''jane@gmail.com'') (js ''verify''))
         (js ''after 1s:'')"
    by (simp add: timeoutMessage_def showInt_def showNat.simps js_def)
  moreover from run_timeout have "map_option (\<lambda>(out, w'). (out, clock w' - clock startWorld))
     (waitAndExtractUrlByRecipient latin1LowerCase (js ''jane@gmail.com'') (js ''verify'') (js ''token'')
        (Some 1) (Some 500)
        (Some \<lparr>optSinceMs = None, optUnreadOnly = None, optLimit = None,
               optMailbox = Some (js ''Archive'')\<rparr>)
        [\<lparr>server = emptyArchive, fetchMs = 5000, sleepMs = 3000\<rparr>] startWorld)
     = Some (Rejected (Timeout (timeoutMessage 1 (js ''token'') (js ''jane@gmail.com'')
                (js ''verify''))), 8000)"
    by (auto simp: map_option_case split: option.splits)
  ultimately show ?thesis using msg_no_mailbox by blast
qed

text \<open>
  Claim C10. With \<open>timeoutSeconds\<close> at most zero the loop body never runs: whatever the
  mailbox would answer, the call fails at once with the Timeout error and leaves the world
  as it was, with no Gateway query, no IMAP command and no wait.
\<close>

theorem nonpositive_timeout_fails_at_once:
  assumes "t \<le> 0"
  shows "waitAndExtractUrlByRecipient toLowerCase r s k (Some t) pi opts cycles w
           = Some (Rejected (Timeout (timeoutMessage t k r s)), w)"
proof -
  let ?rq = "withDefaults r s k (Some t) pi opts"
  have ts: "timeoutSeconds ?rq = t"
    by (simp add: withDefaults_def Let_def orElse_def)
  have "t * 1000 \<le> 0" using assms by simp
  then have "\<not> clock w < clock w + timeoutSeconds ?rq * 1000" unfolding ts by linarith
  then have "pollLoop toLowerCase ?rq
        \<lparr>deadline = clock w + timeoutSeconds ?rq * 1000,
          targetRecipient = normalizeGmail toLowerCase r, subjectNeedle = toLowerCase s,
          urlNeedle = toLowerCase k\<rparr> cycles w = Some (Rejected (timedOut ?rq), w)"
    by (intro pollLoop_deadline_passed) simp
  moreover have "timedOut ?rq = Timeout (timeoutMessage t k r s)"
    by (simp add: timedOut_def withDefaults_def Let_def orElse_def)
  ultimately show ?thesis by (simp add: waitAndExtractUrlByRecipient_def Let_def)
qed

theorem nonpositive_timeout_fails_at_once_witness:
  "waitAndExtractUrlByRecipient latin1LowerCase (js ''Jane+test@gmail.com'') (js ''verify'') (js ''verify'')
     (Some 0) None None [\<lparr>server = inboxWithVerifyMail, fetchMs = 800, sleepMs = 3000\<rparr>]
     startWorld
   = Some (Rejected (Timeout (timeoutMessage 0 (js ''verify'') (js ''Jane+test@gmail.com'')
             (js ''verify''))), startWorld)
   \<and> fetches startWorld = [] \<and> imapCalls startWorld = [] \<and> sleeps startWorld = []"
proof -
  have z: "(0::int) \<le> 0" by simp
  show ?thesis
    using nonpositive_timeout_fails_at_once[OF z, of latin1LowerCase "js ''Jane+test@gmail.com''" "js ''verify''"
        "js ''verify''" None None "[\<lparr>server = inboxWithVerifyMail, fetchMs = 800, sleepMs = 3000\<rparr>]"
        startWorld]
    by (simp add: startWorld_def)
qed

section \<open>Properties of the Gateway\<close>

text \<open>
  \<open>isSearch\<close> picks the search commands out of a trace of IMAP commands.
  \<open>messageFails\<close> says that processing a message throws: its download (or reading its
  content) fails, or its parsing fails.
\<close>

definition isSearch :: "imapCall \<Rightarrow> bool" where
  "isSearch c = (case c of Search q \<Rightarrow> True | _ \<Rightarrow> False)"


lemma processMessage_calls: "\<forall>c\<in>set (snd (processMessage toLowerCase srv f u)). \<not> isSearch c"
  by (auto simp: processMessage_def isSearch_def Let_def split: sum.splits option.splits)

lemma processAll_calls: "filter isSearch (snd (processAll toLowerCase srv f results us)) = []"
proof (induction us arbitrary: results)
  case Nil
  then show ?case by simp
next
  case (Cons u us)
  obtain p calls where pm: "processMessage toLowerCase srv f u = (p, calls)"
    by (cases "processMessage toLowerCase srv f u")
  with processMessage_calls[of toLowerCase srv f u] have c: "filter isSearch calls = []"
    by (auto simp: filter_empty_conv)
  show ?case
    using pm c Cons.IH
    by (cases p) (simp_all add: Let_def case_prod_beta)
qed





lemma fetchEmails_searches:
  assumes "connectError srv = None" and "orElse (mailbox f) (js ''INBOX'') \<in> set (boxes srv)"
  shows "filter isSearch (snd (fetchEmails toLowerCase srv now f)) =
           map Search (snd (searchWithRetries srv (orElse (unreadOnly f) False)
              (case sinceMs f of None \<Rightarrow> None
               | Some ms \<Rightarrow> if ms = 0 then None else Some (now - ms))))"
proof -
  have m: "filter isSearch (map Search qs) = map Search qs" for qs
    by (induction qs) (simp_all add: isSearch_def)
  show ?thesis
    using assms
    by (simp add: fetchEmails_def Let_def case_prod_beta processAll_calls m) (simp add: isSearch_def)
qed

lemma searchWithRetries_log:
  "snd (searchWithRetries srv unread sinceDate) =
     [\<lparr>seen = (if unread then Some False else None), since = sinceDate\<rparr>]
     @ (if asArray (searchResult srv \<lparr>seen = (if unread then Some False else None), since = sinceDate\<rparr>) = []
           \<and> sinceDate \<noteq> None
        then [\<lparr>seen = (if unread then Some False else None), since = None\<rparr>] else [])
     @ (if asArray (searchResult srv \<lparr>seen = (if unread then Some False else None), since = sinceDate\<rparr>) = []
           \<and> (sinceDate = None
               \<or> asArray (searchResult srv \<lparr>seen = (if unread then Some False else None), since = None\<rparr>) = [])
           \<and> unread
        then [\<lparr>seen = None, since = None\<rparr>] else [])"
  by (simp add: searchWithRetries_def Let_def)

lemma searchWithRetries_uids:
  "fst (searchWithRetries srv unread sinceDate) =
     (if asArray (searchResult srv \<lparr>seen = (if unread then Some False else None), since = sinceDate\<rparr>) \<noteq> []
      then asArray (searchResult srv \<lparr>seen = (if unread then Some False else None), since = sinceDate\<rparr>)
      else if sinceDate \<noteq> None
              \<and> asArray (searchResult srv \<lparr>seen = (if unread then Some False else None), since = None\<rparr>) \<noteq> []
      then asArray (searchResult srv \<lparr>seen = (if unread then Some False else None), since = None\<rparr>)
      else if unread then asArray (searchResult srv \<lparr>seen = None, since = None\<rparr>)
      else [])"
  by (simp add: searchWithRetries_def Let_def)

text \<open>
  Claim C8. Within one Gateway query, with \<open>r1\<close> the result of the search as requested:
  when \<open>r1\<close> is empty and a time window was given (\<open>sinceMs\<close> present and not zero), the
  Gateway searches again without the time window; when the result is still empty and
  \<open>unreadOnly\<close> was set, it searches again with no constraint at all; it searches no
  other time, and it goes on with the first result that is not empty. The Engine has no
  part in this: it passes the same filter, with the configured time window and unread
  flag, to every Gateway query.
\<close>

theorem gateway_retries_without_filters:
  assumes "connectError srv = None"
    and "orElse (mailbox f) (js ''INBOX'') \<in> set (boxes srv)"
    and "unread = orElse (unreadOnly f) False"
    and "sinceDate = (case sinceMs f of None \<Rightarrow> None
                      | Some ms \<Rightarrow> if ms = 0 then None else Some (now - ms))"
    and "q1 = \<lparr>seen = (if unread then Some False else None), since = sinceDate\<rparr>"
    and "q2 = \<lparr>seen = (if unread then Some False else None), since = None\<rparr>"
    and "q3 = \<lparr>seen = None, since = None\<rparr>"
    and "r1 = asArray (searchResult srv q1)"
    and "r2 = asArray (searchResult srv q2)"
  shows "filter isSearch (snd (fetchEmails toLowerCase srv now f)) =
           map Search ([q1]
             @ (if r1 = [] \<and> sinceDate \<noteq> None then [q2] else [])
             @ (if r1 = [] \<and> (sinceDate = None \<or> r2 = []) \<and> unread then [q3] else []))
         \<and> fst (searchWithRetries srv unread sinceDate) =
             (if r1 \<noteq> [] then r1
              else if sinceDate \<noteq> None \<and> r2 \<noteq> [] then r2
              else if unread then asArray (searchResult srv q3)
              else [])
         \<and> (pollLoop toLowerCase rq lc cs w = Some (out, w') \<longrightarrow>
               (\<exists>n. fetches w' = fetches w @ replicate n (filterSpec rq)))"
proof -
  have a: "filter isSearch (snd (fetchEmails toLowerCase srv now f)) =
           map Search ([q1]
             @ (if r1 = [] \<and> sinceDate \<noteq> None then [q2] else [])
             @ (if r1 = [] \<and> (sinceDate = None \<or> r2 = []) \<and> unread then [q3] else []))"
    unfolding fetchEmails_searches[OF assms(1,2)] assms(3)[symmetric] assms(4)[symmetric]
      searchWithRetries_log assms(5-9)
    by simp
  have b: "fst (searchWithRetries srv unread sinceDate) =
             (if r1 \<noteq> [] then r1
              else if sinceDate \<noteq> None \<and> r2 \<noteq> [] then r2
              else if unread then asArray (searchResult srv q3)
              else [])"
    unfolding searchWithRetries_uids assms(5-9) by simp
  have c: "pollLoop toLowerCase rq lc cs w = Some (out, w') \<longrightarrow>
               (\<exists>n. fetches w' = fetches w @ replicate n (filterSpec rq))"
    using pollLoop_fetches by blast
  from a b c show ?thesis by blast
qed

definition staleFlags :: imap where
  "staleFlags =
     \<lparr>connectError = None,
      boxes = [js ''INBOX''],
      searchResult = (\<lambda>q. if seen q = None \<and> since q = None then Some [7, 9] else Some []),
      downloadResult = (\<lambda>u. if u = 9 then Inl (js ''socket closed'') else Inr (Some [])),
      parseResult = (\<lambda>raw. Inr verifyMail)\<rparr>"

definition unreadLastSecond :: emailFilter where
  "unreadLastSecond =
     \<lparr>mailbox = None, unreadOnly = Some True, fromContains = None, subjectContains = None,
      bodyIncludes = None, sinceMs = Some 1000, limit = None, includeAttachments = None,
      markSeen = None, sortNewestFirst = None\<rparr>"

theorem gateway_retries_without_filters_witness:
  "filter isSearch (snd (fetchEmails latin1LowerCase staleFlags 5000 unreadLastSecond)) =
     [Search \<lparr>seen = Some False, since = Some 4000\<rparr>,
      Search \<lparr>seen = Some False, since = None\<rparr>,
      Search \<lparr>seen = None, since = None\<rparr>]
   \<and> fst (searchWithRetries staleFlags True (Some 4000)) = [7, 9]"
proof -
  have c: "connectError staleFlags = None" by (simp add: staleFlags_def)
  have m: "orElse (mailbox unreadLastSecond) (js ''INBOX'') \<in> set (boxes staleFlags)"
    by (simp add: staleFlags_def unreadLastSecond_def orElse_def)
  show ?thesis
    using gateway_retries_without_filters[where toLowerCase=latin1LowerCase and now=5000,
        OF c m refl refl refl refl refl refl refl]
    by (simp add: staleFlags_def unreadLastSecond_def orElse_def asArray_def)
qed



end
